theory Spec2Isabelle
  imports Main "HOL-Library.AList"
begin

section \<open>Data model of the router (router.ts)\<close>

text \<open>
  An \<open>Object\<close> is a component instance, known only by its identity; \<open>Null\<close> is the
  JavaScript null that \<open>outlet.loadedComponent\<close> yields for an outlet with nothing loaded.
\<close>

datatype Object = Null | Instance nat

type_synonym Type = nat

datatype UrlSegment = UrlSegment string "(string \<times> string) list" "string option"

record RouteSegment =
  urlSegments :: "UrlSegment list"
  parameters :: "(string \<times> string) list"
  outlet :: string
  rtype :: Type

datatype 'a TreeNode = TreeNode (val: 'a) (children: "'a TreeNode list")

datatype 'a Tree = Tree (rootNode: "'a TreeNode")

type_synonym RouteTree = "RouteSegment Tree"

type_synonym UrlTree = "UrlSegment Tree"

text \<open>
  What a thrown exception carries: the \<open>BaseException\<close> of \<open>getOutlet\<close>, the TypeError
  that JavaScript raises when a property of \<open>undefined\<close> is read, and a failure raised by a
  collaborator (recogniser, guard, component factory).
\<close>

datatype error = BaseException string | TypeError | Failure string

text \<open>
  A promise is modelled by how it settles: with a value, with a rejection, or never.
\<close>

datatype 'a promise = Resolved 'a | Rejected error | Pending

text \<open>
  \<open>RouterOutlet\<close> (directives/router_outlet) is used through \<open>isLoaded\<close>,
  \<open>loadedComponent\<close>, \<open>outletMap\<close>, \<open>load\<close> and \<open>unload\<close>. The nested registry is
  \<open>None\<close> while the field is still undefined (nothing was ever loaded into the outlet).
  \<open>RouterOutletMap._outlets\<close> is a string-keyed object: an association list in insertion
  order, which is the order in which \<open>StringMapWrapper.forEach\<close> visits the names (names
  that are array indices, which JavaScript would visit first, are not considered). An outlet
  is loaded when its \<open>loadedComponent\<close> is not null.
\<close>

datatype RouterOutlet =
  RouterOutlet (loadedComponent: Object) (outletMap: "(string \<times> RouterOutlet) list option")

type_synonym RouterOutletMap = "(string \<times> RouterOutlet) list"

definition isLoaded :: "RouterOutlet \<Rightarrow> bool" where
  "isLoaded out = (loadedComponent out \<noteq> Null)"

definition registerOutlet :: "string \<Rightarrow> RouterOutlet \<Rightarrow> RouterOutletMap \<Rightarrow> RouterOutletMap" where
  "registerOutlet name out outlets = AList.update name out outlets"

text \<open>
  The observable effects, in the order in which they happen. \<open>RouterCanDeactivate i p\<close> is
  the call of the guard of \<open>p\<close> in the chain of the \<open>i\<close>-th deactivation path; the chains
  of different paths run interleaved in the source, and only the order within one chain is
  meaningful in the log.
\<close>

datatype event =
    RouterCanDeactivate nat Object
  | OutletUnload Object
  | OutletLoad RouteSegment Object
  | RouterOnActivate Object
  | LocationGo string
  | ChangesEmit

text \<open>
  The collaborators that router.ts imports: the constant of ./constants, \<open>equalSegments\<close>
  of ./segments, \<open>hasLifecycleHook\<close>, the guard of a component, \<open>recognize\<close>, the
  serializer, \<open>link\<close>, and what \<open>outlet.load\<close> does with the component factory: it yields the new
  instance together with the names under which the outlets of its template register themselves
  in the fresh registry, or it fails.
\<close>

record Env =
  DEFAULT_OUTLET_NAME :: string
  equalSegments :: "RouteSegment \<Rightarrow> RouteSegment option \<Rightarrow> bool"
  hasLifecycleHook :: "string \<Rightarrow> Object \<Rightarrow> bool"
  routerCanDeactivate :: "Object \<Rightarrow> RouteTree option \<Rightarrow> RouteTree \<Rightarrow> bool promise"
  recognize :: "Type \<Rightarrow> UrlTree \<Rightarrow> RouteTree promise"
  createComponent :: "RouteSegment \<Rightarrow> error + Object \<times> string list"
  serialize :: "UrlTree \<Rightarrow> string"
  parse :: "string \<Rightarrow> UrlTree"
  link :: "RouteSegment \<Rightarrow> RouteTree \<Rightarrow> UrlTree \<Rightarrow> string list \<Rightarrow> UrlTree"

text \<open>
  The fields of a \<open>_LoadSegments\<close> object, and the log of the effects of its walks.
\<close>

record LoadSegments =
  currTree :: RouteTree
  prevTree :: "RouteTree option"
  deactivations :: "Object list list"
  performMutation :: bool
  trace :: "event list"

definition new_LoadSegments :: "RouteTree \<Rightarrow> RouteTree option \<Rightarrow> LoadSegments" where
  "new_LoadSegments c p =
     \<lparr>currTree = c, prevTree = p, deactivations = [], performMutation = True, trace = []\<rparr>"

section \<open>Tearing an outlet down: unloadOutlet\<close>

text \<open>
  Every function of a walk returns the exception that ended it (if any), the outlet or
  registry as the walk left it, and the \<open>_LoadSegments\<close> fields.

  \<open>unloadOutlet\<close> first tests \<open>isPresent(outlet)\<close>. Its recursive calls pass the
  outlets stored in a registry, which are always present, so the recursion is written on a
  present outlet (\<open>unloadPresentOutlet\<close>: the test of \<open>outlet.isLoaded\<close> and the body),
  and \<open>unloadOutlet\<close> adds the presence test in front of it.
\<close>

fun unloadPresentOutlet ::
    "RouterOutlet \<Rightarrow> Object list \<Rightarrow> LoadSegments
       \<Rightarrow> error option \<times> RouterOutlet \<times> LoadSegments"
  and unloadOutlets ::
    "RouterOutletMap \<Rightarrow> Object list \<Rightarrow> LoadSegments
       \<Rightarrow> error option \<times> RouterOutletMap \<times> LoadSegments"
where
  "unloadPresentOutlet (RouterOutlet lc None) components s =
     (if lc \<noteq> Null then (Some TypeError, RouterOutlet lc None, s)
      else (None, RouterOutlet lc None, s))"
| "unloadPresentOutlet (RouterOutlet lc (Some m)) components s =
     (if lc \<noteq> Null then
        (case unloadOutlets m components s of
           (Some e, m', s') \<Rightarrow> (Some e, RouterOutlet lc (Some m'), s')
         | (None, m', s') \<Rightarrow>
             if performMutation s'
             then (None, RouterOutlet Null (Some m'),
                   s'\<lparr>trace := trace s' @ [OutletUnload lc]\<rparr>)
             else (None, RouterOutlet lc (Some m'),
                   s'\<lparr>deactivations := deactivations s' @ [components @ [lc]]\<rparr>))
      else (None, RouterOutlet lc (Some m), s))"
| "unloadOutlets [] components s = (None, [], s)"
| "unloadOutlets ((k, v) # rest) components s =
     (case unloadPresentOutlet v components s of
        (Some e, v', s') \<Rightarrow> (Some e, (k, v') # rest, s')
      | (None, v', s') \<Rightarrow>
          (case unloadOutlets rest components s' of
             (e, rest', s'') \<Rightarrow> (e, (k, v') # rest', s'')))"

definition unloadOutlet ::
    "RouterOutlet option \<Rightarrow> Object list \<Rightarrow> LoadSegments
       \<Rightarrow> error option \<times> RouterOutlet option \<times> LoadSegments" where
  "unloadOutlet outlet' components s =
     (case outlet' of
        None \<Rightarrow> (None, None, s)
      | Some out \<Rightarrow>
          (case unloadPresentOutlet out components s of
             (e, out', s') \<Rightarrow> (e, Some out', s')))"

section \<open>The walk over the two trees\<close>

definition getOutlet :: "Env \<Rightarrow> RouterOutletMap option \<Rightarrow> RouteSegment \<Rightarrow> error + RouterOutlet" where
  "getOutlet env outletMap' segment =
     (case outletMap' of
        None \<Rightarrow> Inl TypeError
      | Some outlets \<Rightarrow>
          (case map_of outlets (outlet segment) of
             None \<Rightarrow>
               if outlet segment = DEFAULT_OUTLET_NAME env
               then Inl (BaseException ''Cannot find default outlet'')
               else Inl (BaseException (''Cannot find the outlet '' @ outlet segment))
           | Some out \<Rightarrow> Inr out))"

text \<open>
  \<open>loadNewSegment\<close> calls \<open>outlet.load\<close>, which stores the fresh registry and the
  new component in the outlet; the outlets of the component's template have registered
  themselves in that registry by then. The result is the outlet as it is after the call
  (its \<open>loadedComponent\<close> is the instance that the source returns), or the failure of the
  factory together with the outlet as the failed call leaves it: the registry is replaced by
  the fresh one before the component is created, and nothing is loaded.
\<close>

definition loadNewSegment ::
    "Env \<Rightarrow> RouteSegment \<Rightarrow> RouteSegment option \<Rightarrow> RouterOutlet option \<Rightarrow> LoadSegments
       \<Rightarrow> (error \<times> RouterOutlet option + RouterOutlet) \<times> LoadSegments" where
  "loadNewSegment env cur prev out s =
     (case createComponent env cur of
        Inl e \<Rightarrow>
          (Inl (e, map_option (\<lambda>x. RouterOutlet (loadedComponent x) (Some [])) out), s)
      | Inr (instance, names) \<Rightarrow>
          (Inr (RouterOutlet instance
                  (Some (fold (\<lambda>name. registerOutlet name (RouterOutlet Null None)) names []))),
           s\<lparr>trace := trace s @ [OutletLoad cur instance] @
                (if hasLifecycleHook env ''routerOnActivate'' instance
                 then [RouterOnActivate instance] else [])\<rparr>))"

text \<open>
  The object \<open>prevChildren\<close> of \<open>loadChildSegments\<close>: the children of the previous node
  by outlet name, a later child replacing an earlier one of the same name.
\<close>

definition prevChildrenOf ::
    "RouteSegment TreeNode option \<Rightarrow> (string \<times> RouteSegment TreeNode) list" where
  "prevChildrenOf prevNode =
     (case prevNode of
        None \<Rightarrow> []
      | Some n \<Rightarrow> fold (\<lambda>c m. AList.update (outlet (val c)) c m) (children n) [])"

text \<open>
  The closing loop of \<open>loadChildSegments\<close>: every previous child that no current child
  claimed has its outlet torn down.
\<close>

definition putOutlet ::
    "string \<Rightarrow> RouterOutlet option \<Rightarrow> RouterOutletMap option \<Rightarrow> RouterOutletMap option" where
  "putOutlet k out outletMap' =
     (case out of None \<Rightarrow> outletMap' | Some x \<Rightarrow> map_option (AList.update k x) outletMap')"

fun unloadRemoved ::
    "(string \<times> RouteSegment TreeNode) list \<Rightarrow> RouterOutletMap option \<Rightarrow> Object list
       \<Rightarrow> LoadSegments \<Rightarrow> error option \<times> RouterOutletMap option \<times> LoadSegments" where
  "unloadRemoved [] outletMap' components s = (None, outletMap', s)"
| "unloadRemoved ((k, v) # rest) None components s = (Some TypeError, None, s)"
| "unloadRemoved ((k, v) # rest) (Some outlets) components s =
     (case unloadOutlet (map_of outlets k) components s of
        (Some e, out', s') \<Rightarrow> (Some e, putOutlet k out' (Some outlets), s')
      | (None, out', s') \<Rightarrow>
          unloadRemoved rest (putOutlet k out' (Some outlets)) components s')"

function (sequential) loadChildSegments ::
    "Env \<Rightarrow> RouteSegment TreeNode \<Rightarrow> RouteSegment TreeNode option \<Rightarrow> RouterOutletMap option
       \<Rightarrow> Object list \<Rightarrow> LoadSegments
       \<Rightarrow> error option \<times> RouterOutletMap option \<times> LoadSegments"
  and loadChildren ::
    "Env \<Rightarrow> RouteSegment TreeNode list \<Rightarrow> (string \<times> RouteSegment TreeNode) list
       \<Rightarrow> RouterOutletMap option \<Rightarrow> Object list \<Rightarrow> LoadSegments
       \<Rightarrow> error option \<times> (string \<times> RouteSegment TreeNode) list
          \<times> RouterOutletMap option \<times> LoadSegments"
  and loadSegments ::
    "Env \<Rightarrow> RouteSegment TreeNode \<Rightarrow> RouteSegment TreeNode option \<Rightarrow> RouterOutletMap option
       \<Rightarrow> Object list \<Rightarrow> LoadSegments
       \<Rightarrow> error option \<times> RouterOutletMap option \<times> LoadSegments"
where
  "loadChildSegments env (TreeNode v cs) prevNode outletMap' components s =
     (case loadChildren env cs (prevChildrenOf prevNode) outletMap' components s of
        (Some e, prevChildren, outletMap'', s') \<Rightarrow> (Some e, outletMap'', s')
      | (None, prevChildren, outletMap'', s') \<Rightarrow>
          unloadRemoved prevChildren outletMap'' components s')"
| "loadChildren env [] prevChildren outletMap' components s =
     (None, prevChildren, outletMap', s)"
| "loadChildren env (c # cs) prevChildren outletMap' components s =
     (case loadSegments env c (map_of prevChildren (outlet (val c))) outletMap' components s of
        (Some e, outletMap'', s') \<Rightarrow> (Some e, prevChildren, outletMap'', s')
      | (None, outletMap'', s') \<Rightarrow>
          loadChildren env cs (AList.delete (outlet (val c)) prevChildren)
            outletMap'' components s')"
| "loadSegments env currNode prevNode parentOutletMap components s =
     (let curr = val currNode; prev = map_option val prevNode in
      case getOutlet env parentOutletMap curr of
        Inl e \<Rightarrow> (Some e, parentOutletMap, s)
      | Inr out \<Rightarrow>
          if equalSegments env curr prev then
            (case loadChildSegments env currNode prevNode (outletMap out)
                    (components @ [loadedComponent out]) s of
               (e, outletMap'', s') \<Rightarrow>
                 (e, putOutlet (outlet curr)
                       (Some (RouterOutlet (loadedComponent out) outletMap''))
                       parentOutletMap, s'))
          else
            (case unloadOutlet (Some out) components s of
               (Some e, out', s') \<Rightarrow> (Some e, putOutlet (outlet curr) out' parentOutletMap, s')
             | (None, out', s') \<Rightarrow>
                 if performMutation s' then
                   (case loadNewSegment env curr prev out' s' of
                      (Inl (e, failed), s'') \<Rightarrow>
                        (Some e, putOutlet (outlet curr) failed parentOutletMap, s'')
                    | (Inr out'', s'') \<Rightarrow>
                        (case loadChildSegments env currNode prevNode (outletMap out'')
                                (components @ [loadedComponent out'']) s'' of
                           (e, outletMap'', s''') \<Rightarrow>
                             (e, putOutlet (outlet curr)
                                   (Some (RouterOutlet (loadedComponent out'') outletMap''))
                                   parentOutletMap, s''')))
                 else (None, putOutlet (outlet curr) out' parentOutletMap, s')))"
  by pat_completeness auto

termination
  by (relation "measure (\<lambda>x. case x of
          Inl (env, n, r) \<Rightarrow> 2 * size n
        | Inr (Inl (env, cs, r)) \<Rightarrow> 2 * size_list size cs + 1
        | Inr (Inr (env, n, r)) \<Rightarrow> 2 * size n + 1)") auto

section \<open>The guard protocol\<close>

text \<open>
  One step of the chain that \<open>checkCanDeactivatePath\<close> builds: the callback given to
  \<open>then\<close> runs only when the promise before it resolved. The second component lists the
  guards called so far.
\<close>

definition guardStep ::
    "Env \<Rightarrow> LoadSegments \<Rightarrow> Object \<Rightarrow> bool promise \<times> Object list
       \<Rightarrow> bool promise \<times> Object list" where
  "guardStep env s p acc =
     (case fst acc of
        Resolved x \<Rightarrow>
          if hasLifecycleHook env ''routerCanDeactivate'' p
          then (routerCanDeactivate env p (prevTree s) (currTree s), snd acc @ [p])
          else (Resolved x, snd acc)
      | Rejected e \<Rightarrow> (Rejected e, snd acc)
      | Pending \<Rightarrow> (Pending, snd acc))"

definition checkCanDeactivatePath ::
    "Env \<Rightarrow> LoadSegments \<Rightarrow> Object list \<Rightarrow> bool promise \<times> Object list" where
  "checkCanDeactivatePath env s path = fold (guardStep env s) (rev path) (Resolved True, [])"

text \<open>
  \<open>PromiseWrapper.all\<close>: rejected as soon as one promise is rejected, resolved with all
  the values once every promise has resolved, and pending otherwise. When several promises
  are rejected the source reports the rejection that happens first in time; the settled
  results carry no times, and the rejection of the first rejected promise of the list stands
  for it.
\<close>

fun PromiseWrapper_all :: "'a promise list \<Rightarrow> 'a list promise" where
  "PromiseWrapper_all [] = Resolved []"
| "PromiseWrapper_all (p # ps) =
     (case (p, PromiseWrapper_all ps) of
        (Rejected e, r) \<Rightarrow> Rejected e
      | (Pending, Rejected e) \<Rightarrow> Rejected e
      | (Pending, r) \<Rightarrow> Pending
      | (Resolved v, Rejected e) \<Rightarrow> Rejected e
      | (Resolved v, Pending) \<Rightarrow> Pending
      | (Resolved v, Resolved vs) \<Rightarrow> Resolved (v # vs))"

text \<open>
  \<open>canDeactivate\<close> disables mutation, walks the trees once to collect the deactivation
  paths, and starts one guard chain per path. \<open>load\<close> runs the second walk, with mutation
  enabled, in the callback of the promise of \<open>canDeactivate\<close>, and only when that promise
  resolved true. An exception thrown by a walk surfaces as a rejection: \<open>load\<close> is itself
  called in a callback of the promise of \<open>recognize\<close>.
\<close>

definition guardEvents :: "(bool promise \<times> Object list) list \<Rightarrow> event list" where
  "guardEvents results =
     concat (map (\<lambda>(i, r). map (RouterCanDeactivate i) (snd r)) (enumerate 0 results))"

definition canDeactivate ::
    "Env \<Rightarrow> LoadSegments \<Rightarrow> RouteSegment TreeNode \<Rightarrow> RouteSegment TreeNode option
       \<Rightarrow> RouterOutletMap option \<Rightarrow> Object
       \<Rightarrow> bool promise \<times> RouterOutletMap option \<times> LoadSegments" where
  "canDeactivate env s currRoot prevRoot outletMap' rootComponent' =
     (case loadChildSegments env currRoot prevRoot outletMap' [rootComponent']
             (s\<lparr>performMutation := False\<rparr>) of
        (Some e, outletMap'', s') \<Rightarrow> (Rejected e, outletMap'', s')
      | (None, outletMap'', s') \<Rightarrow>
          (let results = map (checkCanDeactivatePath env s') (deactivations s') in
           (case PromiseWrapper_all (map fst results) of
              Resolved values \<Rightarrow> Resolved (length (filter (\<lambda>v. v) values) = length values)
            | Rejected e \<Rightarrow> Rejected e
            | Pending \<Rightarrow> Pending,
            outletMap'',
            s'\<lparr>trace := trace s' @ guardEvents results\<rparr>)))"

definition load ::
    "Env \<Rightarrow> LoadSegments \<Rightarrow> RouterOutletMap option \<Rightarrow> Object
       \<Rightarrow> bool promise \<times> RouterOutletMap option \<times> LoadSegments" where
  "load env s parentOutletMap rootComponent' =
     (let prevRoot = map_option rootNode (prevTree s);
          currRoot = rootNode (currTree s) in
      case canDeactivate env s currRoot prevRoot parentOutletMap rootComponent' of
        (Resolved res, outletMap', s') \<Rightarrow>
          if res then
            (case loadChildSegments env currRoot prevRoot outletMap' [rootComponent']
                    (s'\<lparr>performMutation := True\<rparr>) of
               (Some e, outletMap'', s'') \<Rightarrow> (Rejected e, outletMap'', s'')
             | (None, outletMap'', s'') \<Rightarrow> (Resolved res, outletMap'', s''))
          else (Resolved res, outletMap', s'\<lparr>performMutation := True\<rparr>)
      | (Rejected e, outletMap', s') \<Rightarrow> (Rejected e, outletMap', s')
      | (Pending, outletMap', s') \<Rightarrow> (Pending, outletMap', s'))"

section \<open>The router\<close>

text \<open>
  The private fields of \<open>Router\<close> (\<open>_prevTree\<close> and \<open>_urlTree\<close> are \<open>priv_prevTree\<close>
  and \<open>priv_urlTree\<close>; the accessors \<open>routeTree\<close> and \<open>urlTree\<close> read them), and the
  log of everything the router did to its outlets, to the location and to the \<open>changes\<close>
  emitter. \<open>Router_navigate\<close> is the private method \<open>_navigate\<close>, through which both
  \<open>navigateByUrl\<close> and \<open>navigate\<close> go; its promise carries no value.
\<close>

record Router =
  priv_prevTree :: RouteTree
  priv_urlTree :: UrlTree
  rootComponent :: Object
  rootComponentType :: Type
  routerOutletMap :: RouterOutletMap
  effects :: "event list"

definition urlTree :: "Router \<Rightarrow> UrlTree" where
  "urlTree r = priv_urlTree r"

definition routeTree :: "Router \<Rightarrow> RouteTree" where
  "routeTree r = priv_prevTree r"

definition createInitialTree :: "Env \<Rightarrow> Type \<Rightarrow> RouteTree" where
  "createInitialTree env rootComponentType' =
     Tree (TreeNode \<lparr>urlSegments = [UrlSegment '''' [] None], parameters = [],
                       outlet = DEFAULT_OUTLET_NAME env, rtype = rootComponentType'\<rparr> [])"

definition Router_navigate :: "Env \<Rightarrow> Router \<Rightarrow> UrlTree \<Rightarrow> unit promise \<times> Router" where
  "Router_navigate env r url =
     (let r1 = r\<lparr>priv_urlTree := url\<rparr> in
      case recognize env (rootComponentType r1) url of
        Rejected e \<Rightarrow> (Rejected e, r1)
      | Pending \<Rightarrow> (Pending, r1)
      | Resolved currTree' \<Rightarrow>
          (case load env (new_LoadSegments currTree' (Some (priv_prevTree r1)))
                  (Some (routerOutletMap r1)) (rootComponent r1) of
             (p, outletMap', s) \<Rightarrow>
               (let r2 = r1\<lparr>routerOutletMap :=
                              (case outletMap' of Some m \<Rightarrow> m | None \<Rightarrow> routerOutletMap r1),
                            effects := effects r1 @ trace s\<rparr> in
                case p of
                  Resolved updated \<Rightarrow>
                    if updated then
                      (Resolved (),
                       r2\<lparr>priv_prevTree := currTree',
                          effects := effects r2 @
                            [LocationGo (serialize env (priv_urlTree r2)), ChangesEmit]\<rparr>)
                    else (Resolved (), r2)
                | Rejected e \<Rightarrow> (Rejected e, r2)
                | Pending \<Rightarrow> (Pending, r2))))"

definition navigateByUrl :: "Env \<Rightarrow> Router \<Rightarrow> string \<Rightarrow> unit promise \<times> Router" where
  "navigateByUrl env r url = Router_navigate env r (parse env url)"

definition createUrlTree :: "Env \<Rightarrow> Router \<Rightarrow> string list \<Rightarrow> RouteSegment option \<Rightarrow> UrlTree" where
  "createUrlTree env r commands segment =
     (let s = (case segment of Some x \<Rightarrow> x | None \<Rightarrow> val (rootNode (priv_prevTree r))) in
      link env s (priv_prevTree r) (urlTree r) commands)"

definition navigate ::
    "Env \<Rightarrow> Router \<Rightarrow> string list \<Rightarrow> RouteSegment option \<Rightarrow> unit promise \<times> Router" where
  "navigate env r commands segment = Router_navigate env r (createUrlTree env r commands segment)"

section \<open>Notions used to state the properties\<close>

text \<open>
  Mounting and unmounting are the effects on outlets; a guard call is the other kind of
  effect of a reconciliation.
\<close>

definition isMutation :: "event \<Rightarrow> bool" where
  "isMutation ev =
     (case ev of OutletUnload c \<Rightarrow> True | OutletLoad seg c \<Rightarrow> True
      | RouterOnActivate c \<Rightarrow> True | _ \<Rightarrow> False)"

definition isGuardCall :: "event \<Rightarrow> bool" where
  "isGuardCall ev = (case ev of RouterCanDeactivate i c \<Rightarrow> True | _ \<Rightarrow> False)"

text \<open>
  \<open>extendsBy P t t'\<close>: the log \<open>t'\<close> is \<open>t\<close> followed by events that all satisfy
  \<open>P\<close>. \<open>stateInv\<close> and \<open>mapInv\<close> relate the fields and a registry before and after a
  walk: the trees and the mode flag stay, the log grows by mounts and unmounts only, and with
  mutation disabled neither the log nor the registry changes, while the names registered
  in a registry never change.
\<close>

definition extendsBy :: "(event \<Rightarrow> bool) \<Rightarrow> event list \<Rightarrow> event list \<Rightarrow> bool" where
  "extendsBy P t t' = (take (length t) t' = t \<and> list_all P (drop (length t) t'))"

definition stateInv :: "LoadSegments \<Rightarrow> LoadSegments \<Rightarrow> bool" where
  "stateInv s s' =
     (performMutation s' = performMutation s \<and> currTree s' = currTree s \<and>
      prevTree s' = prevTree s \<and> extendsBy isMutation (trace s) (trace s') \<and>
      (\<not> performMutation s \<longrightarrow> trace s' = trace s))"

definition mapInv :: "LoadSegments \<Rightarrow> RouterOutletMap option \<Rightarrow> RouterOutletMap option \<Rightarrow> bool" where
  "mapInv s om om' =
     (map_option (map fst) om' = map_option (map fst) om \<and> (\<not> performMutation s \<longrightarrow> om' = om))"

text \<open>
  The components that \<open>unloadOutlet\<close> reaches from an outlet: it descends through loaded
  outlets only, and visits the nested outlets before the outlet itself.
\<close>

fun mounted :: "RouterOutlet \<Rightarrow> Object list" and mountedAll :: "RouterOutletMap \<Rightarrow> Object list" where
  "mounted (RouterOutlet lc om) =
     (if lc \<noteq> Null then (case om of None \<Rightarrow> [] | Some m \<Rightarrow> mountedAll m) @ [lc] else [])"
| "mountedAll [] = []"
| "mountedAll ((k, v) # rest) = mounted v @ mountedAll rest"

text \<open>
  Siblings of a route tree bind distinct outlet names.
\<close>

fun distinctOutlets :: "RouteSegment TreeNode \<Rightarrow> bool" where
  "distinctOutlets (TreeNode v cs) =
     (distinct (map (\<lambda>c. outlet (val c)) cs) \<and> (\<forall>c \<in> set cs. distinctOutlets c))"

text \<open>
  The outlet handed to \<open>unloadOutlet\<close> is absent or has no loaded component.
\<close>

definition absentOrUnloaded :: "RouterOutlet option \<Rightarrow> bool" where
  "absentOrUnloaded out = (case out of None \<Rightarrow> True | Some x \<Rightarrow> \<not> isLoaded x)"

text \<open>
  The removed subtrees that a walk meets, each with the chain of components above it.
  \<open>removedBelow\<close> follows \<open>loadChildSegments\<close>, \<open>removedAmong\<close> its loop over the
  current children and \<open>removedAt\<close> follows \<open>loadSegments\<close>. The chain starts as the
  \<open>components\<close> argument (the root component, at the top). A node equal to its previous
  node is reused, and adds the component loaded in its outlet to the chain of everything
  below it; a node that differs from its previous node has its outlet removed; and so has
  every previous child whose outlet name no current child claims (\<open>removedLeftover\<close>,
  when the registry has an outlet of that name). \<open>pathsOf\<close> lists, for every removed
  outlet, one path for each component that \<open>unloadOutlet\<close> reaches from it: the chain
  followed by that component alone.
\<close>

definition removedLeftover ::
    "(string \<times> RouteSegment TreeNode) list \<Rightarrow> RouterOutletMap option \<Rightarrow> Object list
       \<Rightarrow> (Object list \<times> RouterOutlet) list" where
  "removedLeftover prevChildren outletMap' chain =
     concat (map (\<lambda>(k, v). case outletMap' of
                                None \<Rightarrow> []
                              | Some outlets \<Rightarrow>
                                  (case map_of outlets k of None \<Rightarrow> [] | Some out \<Rightarrow> [(chain, out)]))
                 prevChildren)"

function (sequential) removedBelow ::
    "Env \<Rightarrow> RouteSegment TreeNode \<Rightarrow> RouteSegment TreeNode option \<Rightarrow> RouterOutletMap option
       \<Rightarrow> Object list \<Rightarrow> (Object list \<times> RouterOutlet) list"
  and removedAmong ::
    "Env \<Rightarrow> RouteSegment TreeNode list \<Rightarrow> (string \<times> RouteSegment TreeNode) list
       \<Rightarrow> RouterOutletMap option \<Rightarrow> Object list \<Rightarrow> (Object list \<times> RouterOutlet) list"
  and removedAt ::
    "Env \<Rightarrow> RouteSegment TreeNode \<Rightarrow> RouteSegment TreeNode option \<Rightarrow> RouterOutletMap option
       \<Rightarrow> Object list \<Rightarrow> (Object list \<times> RouterOutlet) list"
where
  "removedBelow env (TreeNode v cs) prevNode outletMap' chain =
     removedAmong env cs (prevChildrenOf prevNode) outletMap' chain @
     removedLeftover (fold (\<lambda>c. AList.delete (outlet (val c))) cs (prevChildrenOf prevNode))
       outletMap' chain"
| "removedAmong env [] prevChildren outletMap' chain = []"
| "removedAmong env (c # cs) prevChildren outletMap' chain =
     removedAt env c (map_of prevChildren (outlet (val c))) outletMap' chain @
     removedAmong env cs (AList.delete (outlet (val c)) prevChildren) outletMap' chain"
| "removedAt env currNode prevNode outletMap' chain =
     (case getOutlet env outletMap' (val currNode) of
        Inl e \<Rightarrow> []
      | Inr out \<Rightarrow>
          if equalSegments env (val currNode) (map_option val prevNode)
          then removedBelow env currNode prevNode (outletMap out) (chain @ [loadedComponent out])
          else [(chain, out)])"
  by pat_completeness auto

termination
  by (relation "measure (\<lambda>x. case x of
          Inl (env, n, r) \<Rightarrow> 2 * size n
        | Inr (Inl (env, cs, r)) \<Rightarrow> 2 * size_list size cs + 1
        | Inr (Inr (env, n, r)) \<Rightarrow> 2 * size n + 1)") auto

definition pathsOf :: "(Object list \<times> RouterOutlet) list \<Rightarrow> Object list list" where
  "pathsOf sites = concat (map (\<lambda>(chain, out). map (\<lambda>x. chain @ [x]) (mounted out)) sites)"

text \<open>
  A call of \<open>loadChildSegments\<close> or of \<open>loadSegments\<close> is given by its arguments and the
  fields of the \<open>_LoadSegments\<close> object at the time of the call. \<open>reaches env w l\<close>: the
  call \<open>w\<close> of \<open>loadChildSegments\<close> leads to the call \<open>l\<close> of \<open>loadSegments\<close>, every
  call made before \<open>l\<close> having returned normally. \<open>child\<close>: the loop over the current
  children gets to the child \<open>c\<close> once the children before it are done. \<open>reused\<close> and
  \<open>replaced\<close>: a call of \<open>loadSegments\<close> that is reached calls \<open>loadChildSegments\<close> on
  its own node, in the branch of equal segments with the registry of the outlet, or, with
  mutation enabled, after the outlet was torn down and the new component loaded, with the
  fresh registry; what that inner call leads to is reached as well. With mutation disabled
  nothing below a node that differs from its previous node is reached.

  \<open>walkError\<close> and \<open>segmentError\<close> are the exceptions that such calls end with, and
  \<open>outletNotFound\<close> is the exception that \<open>getOutlet\<close> throws for a segment whose
  outlet name is not registered.
\<close>

type_synonym call =
  "RouteSegment TreeNode \<times> RouteSegment TreeNode option \<times> RouterOutletMap option
     \<times> Object list \<times> LoadSegments"

inductive reaches :: "Env \<Rightarrow> call \<Rightarrow> call \<Rightarrow> bool" for env where
  child:
    "children n = pre @ c # post \<Longrightarrow>
     loadChildren env pre (prevChildrenOf p) om comps s = (None, pc, om1, s1) \<Longrightarrow>
     reaches env (n, p, om, comps, s) (c, map_of pc (outlet (val c)), om1, comps, s1)"
| reused:
    "reaches env w (d, pd, omd, compsd, sd) \<Longrightarrow>
     getOutlet env omd (val d) = Inr out \<Longrightarrow>
     equalSegments env (val d) (map_option val pd) \<Longrightarrow>
     reaches env (d, pd, outletMap out, compsd @ [loadedComponent out], sd) x \<Longrightarrow>
     reaches env w x"
| replaced:
    "reaches env w (d, pd, omd, compsd, sd) \<Longrightarrow>
     getOutlet env omd (val d) = Inr out \<Longrightarrow>
     \<not> equalSegments env (val d) (map_option val pd) \<Longrightarrow>
     unloadOutlet (Some out) compsd sd = (None, out', s1) \<Longrightarrow>
     performMutation s1 \<Longrightarrow>
     loadNewSegment env (val d) (map_option val pd) out' s1 = (Inr out2, s2) \<Longrightarrow>
     reaches env (d, pd, outletMap out2, compsd @ [loadedComponent out2], s2) x \<Longrightarrow>
     reaches env w x"

definition walkError :: "Env \<Rightarrow> call \<Rightarrow> error option" where
  "walkError env w =
     (case w of (n, p, om, comps, s) \<Rightarrow> fst (loadChildSegments env n p om comps s))"

definition segmentError :: "Env \<Rightarrow> call \<Rightarrow> error option" where
  "segmentError env w =
     (case w of (n, p, om, comps, s) \<Rightarrow> fst (loadSegments env n p om comps s))"

definition outletNotFound :: "Env \<Rightarrow> RouteSegment \<Rightarrow> error" where
  "outletNotFound env segment =
     BaseException (if outlet segment = DEFAULT_OUTLET_NAME env
                    then ''Cannot find default outlet''
                    else ''Cannot find the outlet '' @ outlet segment)"

text \<open>
  A promise that resolves. \<open>guardsResolve\<close>: the guard of every guard-bearing resource of
  a path resolves. \<open>lastGuardConsents\<close>: some resource of the list has a guard, the guards
  of the list all resolve, and the guard of its outermost guard-bearing resource, which is
  the one called last, resolves true.
\<close>

definition isResolved :: "'a promise \<Rightarrow> bool" where
  "isResolved p = (case p of Resolved v \<Rightarrow> True | _ \<Rightarrow> False)"

definition guardsResolve :: "Env \<Rightarrow> RouteTree option \<Rightarrow> RouteTree \<Rightarrow> Object list \<Rightarrow> bool" where
  "guardsResolve env prev cur path =
     list_all (\<lambda>p. isResolved (routerCanDeactivate env p prev cur))
       (filter (hasLifecycleHook env ''routerCanDeactivate'') path)"

definition lastGuardConsents :: "Env \<Rightarrow> RouteTree option \<Rightarrow> RouteTree \<Rightarrow> Object list \<Rightarrow> bool" where
  "lastGuardConsents env prev cur path =
     (case filter (hasLifecycleHook env ''routerCanDeactivate'') path of
        [] \<Rightarrow> False
      | g # rest \<Rightarrow>
          routerCanDeactivate env g prev cur = Resolved True \<and>
          list_all (\<lambda>p. isResolved (routerCanDeactivate env p prev cur)) rest)"

section \<open>A small application\<close>

text \<open>
  A root component (instance 0) with one outlet named \<open>primary\<close>. The address \<open>team\<close>
  leads to a tree whose only child is the team segment, \<open>user\<close> to the user segment, and
  every other address matches nothing. A component's guard is given by a table.
\<close>

definition mkSegment :: "string \<Rightarrow> string \<Rightarrow> Type \<Rightarrow> RouteSegment" where
  "mkSegment path name t =
     \<lparr>urlSegments = [UrlSegment path [] None], parameters = [], outlet = name, rtype = t\<rparr>"

definition teamTree :: RouteTree where
  "teamTree = Tree (TreeNode (mkSegment '''' ''primary'' 0)
                     [TreeNode (mkSegment ''team'' ''primary'' 1) []])"

definition userTree :: RouteTree where
  "userTree = Tree (TreeNode (mkSegment '''' ''primary'' 0)
                     [TreeNode (mkSegment ''user'' ''primary'' 2) []])"

definition urlOf :: "string \<Rightarrow> UrlTree" where
  "urlOf path = Tree (TreeNode (UrlSegment path [] None) [])"

definition exampleEnv :: "(Object \<Rightarrow> bool promise option) \<Rightarrow> Env" where
  "exampleEnv guards =
     \<lparr>DEFAULT_OUTLET_NAME = ''primary'',
      equalSegments = (\<lambda>a b. b = Some a),
      hasLifecycleHook = (\<lambda>name p. name = ''routerCanDeactivate'' \<and> guards p \<noteq> None),
      routerCanDeactivate =
        (\<lambda>p prev cur. case guards p of Some r \<Rightarrow> r | None \<Rightarrow> Resolved True),
      recognize = (\<lambda>t url.
         if url = urlOf ''team'' then Resolved teamTree
         else if url = urlOf ''user'' then Resolved userTree
         else Rejected (Failure ''no match'')),
      createComponent = (\<lambda>seg. Inr (Instance (rtype seg), [])),
      serialize = (\<lambda>url. case url of Tree (TreeNode (UrlSegment path ps out) cs) \<Rightarrow> path),
      parse = urlOf,
      link = (\<lambda>seg t url commands. url)\<rparr>"

definition teamRouter :: Router where
  "teamRouter =
     \<lparr>priv_prevTree = teamTree, priv_urlTree = urlOf ''team'',
      rootComponent = Instance 0, rootComponentType = 0,
      routerOutletMap = [(''primary'', RouterOutlet (Instance 1) (Some []))],
      effects = []\<rparr>"

definition innerVetoes :: "Object \<Rightarrow> bool promise option" where
  "innerVetoes p =
     (if p = Instance 0 then Some (Resolved True)
      else if p = Instance 1 then Some (Resolved False) else None)"

definition allConsent :: "Object \<Rightarrow> bool promise option" where
  "allConsent p = (if p = Null then None else Some (Resolved True))"

definition dryRun :: LoadSegments where
  "dryRun = (new_LoadSegments teamTree (Some teamTree))\<lparr>performMutation := False\<rparr>"

text \<open>
  A registry whose outlet \<open>aux\<close> has nothing loaded (a loaded outlet is still registered
  below it) and which has no outlet \<open>popup\<close>; two previous children to be removed; and a
  loaded outlet with loaded outlets nested two levels deep.
\<close>

definition staleOutlets :: RouterOutletMap where
  "staleOutlets = [(''aux'', RouterOutlet Null (Some [(''inner'', RouterOutlet (Instance 5) (Some []))]))]"

definition removedChildren :: "(string \<times> RouteSegment TreeNode) list" where
  "removedChildren =
     [(''aux'', TreeNode (mkSegment ''chat'' ''aux'' 3) []),
      (''popup'', TreeNode (mkSegment ''help'' ''popup'' 4) [])]"

definition nestedOutlet :: RouterOutlet where
  "nestedOutlet =
     RouterOutlet (Instance 1)
       (Some [(''primary'', RouterOutlet (Instance 2)
                 (Some [(''primary'', RouterOutlet (Instance 3) (Some []))])),
              (''aux'', RouterOutlet (Instance 4) (Some []))])"

definition noGuards :: "Object \<Rightarrow> bool promise option" where
  "noGuards p = None"

text \<open>
  A candidate tree with a second child bound to an outlet \<open>aux\<close> that the root component's
  template does not have, and an environment whose recogniser yields it; a guard table in
  which only the team component has a guard, which vetoes; and the \<open>_LoadSegments\<close> object
  of the navigation from the team tree to the user tree.
\<close>

definition chatTree :: RouteTree where
  "chatTree = Tree (TreeNode (mkSegment '''' ''primary'' 0)
                     [TreeNode (mkSegment ''team'' ''primary'' 1) [],
                      TreeNode (mkSegment ''chat'' ''aux'' 3) []])"

definition chatEnv :: Env where
  "chatEnv = (exampleEnv noGuards)\<lparr>recognize := (\<lambda>t url. Resolved chatTree)\<rparr>"

definition teamVetoes :: "Object \<Rightarrow> bool promise option" where
  "teamVetoes p = (if p = Instance 1 then Some (Resolved False) else None)"

definition userDryRun :: LoadSegments where
  "userDryRun = new_LoadSegments userTree (Some teamTree)"

text \<open>
  An environment whose recogniser yields a given tree. Two candidate trees with a node bound
  to an outlet \<open>aux\<close> one level down: below the team node, which the team router reuses
  (the team component's template has no outlet of that name), and below a user node, which
  replaces the team node (the user component's template has no outlet at all); the
  \<open>_LoadSegments\<close> objects of these two navigations, the second when the commit pass
  starts and when the user component has been mounted; and a guard of the team component
  that never settles.
\<close>

definition recognising :: "(Object \<Rightarrow> bool promise option) \<Rightarrow> RouteTree \<Rightarrow> Env" where
  "recognising guards t = (exampleEnv guards)\<lparr>recognize := (\<lambda>ty url. Resolved t)\<rparr>"

definition chatNode :: "RouteSegment TreeNode" where
  "chatNode = TreeNode (mkSegment ''chat'' ''aux'' 3) []"

definition teamChatTree :: RouteTree where
  "teamChatTree = Tree (TreeNode (mkSegment '''' ''primary'' 0)
                     [TreeNode (mkSegment ''team'' ''primary'' 1)
                        [TreeNode (mkSegment ''chat'' ''aux'' 3) []]])"

definition userChatTree :: RouteTree where
  "userChatTree = Tree (TreeNode (mkSegment '''' ''primary'' 0)
                     [TreeNode (mkSegment ''user'' ''primary'' 2)
                        [TreeNode (mkSegment ''chat'' ''aux'' 3) []]])"

definition teamChatDryRun :: LoadSegments where
  "teamChatDryRun = (new_LoadSegments teamChatTree (Some teamTree))\<lparr>performMutation := False\<rparr>"

definition deepCommit :: LoadSegments where
  "deepCommit = (new_LoadSegments userChatTree (Some teamTree))
                  \<lparr>deactivations := [[Instance 0, Instance 1]]\<rparr>"

definition deepMounted :: LoadSegments where
  "deepMounted = deepCommit\<lparr>trace := [OutletUnload (Instance 1),
                    OutletLoad (mkSegment ''user'' ''primary'' 2) (Instance 2)]\<rparr>"

definition teamPends :: "Object \<Rightarrow> bool promise option" where
  "teamPends p = (if p = Instance 1 then Some Pending else None)"

text \<open>
  A router whose root outlet holds the team component (instance 1), with a user component
  (instance 2) and, below it, a detail component (instance 3) in the team's outlet
  \<open>primary\<close> and a chat component (instance 4) in its outlet \<open>aux\<close>; a candidate tree
  that keeps the team, replaces the user and has no chat; the \<open>_LoadSegments\<close> object of
  the first walk of that navigation; and a guard table in which the user component vetoes
  and the guard of the chat component fails.
\<close>

definition teamUserTree :: RouteTree where
  "teamUserTree = Tree (TreeNode (mkSegment '''' ''primary'' 0)
                     [TreeNode (mkSegment ''team'' ''primary'' 1)
                        [TreeNode (mkSegment ''user11'' ''primary'' 2)
                           [TreeNode (mkSegment ''detail'' ''primary'' 3) []],
                         TreeNode (mkSegment ''chat'' ''aux'' 4) []]])"

definition teamOtherUserTree :: RouteTree where
  "teamOtherUserTree = Tree (TreeNode (mkSegment '''' ''primary'' 0)
                     [TreeNode (mkSegment ''team'' ''primary'' 1)
                        [TreeNode (mkSegment ''user22'' ''primary'' 5) []]])"

definition nestedRouter :: Router where
  "nestedRouter =
     \<lparr>priv_prevTree = teamUserTree, priv_urlTree = urlOf ''team/user11'',
      rootComponent = Instance 0, rootComponentType = 0,
      routerOutletMap = [(''primary'', nestedOutlet)],
      effects = []\<rparr>"

definition nestedDryRun :: LoadSegments where
  "nestedDryRun = (new_LoadSegments teamOtherUserTree (Some teamUserTree))
                    \<lparr>performMutation := False\<rparr>"

definition userVetoesChatFails :: "Object \<Rightarrow> bool promise option" where
  "userVetoesChatFails p =
     (if p = Instance 2 then Some (Resolved False)
      else if p = Instance 4 then Some (Rejected (Failure ''guard failed'')) else None)"

section \<open>Evaluation of the small application\<close>

lemmas scenario_defs =
  navigateByUrl_def Router_navigate_def exampleEnv_def urlOf_def teamRouter_def
  load_def canDeactivate_def new_LoadSegments_def userTree_def teamTree_def mkSegment_def
  prevChildrenOf_def getOutlet_def checkCanDeactivatePath_def guardStep_def
  guardEvents_def loadNewSegment_def loadSegments.simps
  unloadOutlet_def putOutlet_def registerOutlet_def Let_def

lemmas deep_defs =
  recognising_def exampleEnv_def teamTree_def userChatTree_def teamChatTree_def chatNode_def
  mkSegment_def teamRouter_def new_LoadSegments_def prevChildrenOf_def getOutlet_def
  unloadOutlet_def loadNewSegment_def registerOutlet_def noGuards_def deepCommit_def
  deepMounted_def teamChatDryRun_def

section \<open>Frame properties of the walks\<close>

lemma update_same: "map_of al k = Some v \<Longrightarrow> AList.update k v al = al"
  by (induction al) auto

lemma update_keys_present:
  "map_of al k = Some v \<Longrightarrow> map fst (AList.update k w al) = map fst al"
  by (induction al) auto

lemma extendsBy_iff: "extendsBy P t t' \<longleftrightarrow> (\<exists>ev. t' = t @ ev \<and> list_all P ev)"
proof
  assume "extendsBy P t t'"
  then have "t' = t @ drop (length t) t' \<and> list_all P (drop (length t) t')"
    unfolding extendsBy_def by (metis append_take_drop_id)
  then show "\<exists>ev. t' = t @ ev \<and> list_all P ev" by blast
next
  assume "\<exists>ev. t' = t @ ev \<and> list_all P ev"
  then show "extendsBy P t t'" unfolding extendsBy_def by auto
qed

lemma extendsBy_refl: "extendsBy P t t"
  by (simp add: extendsBy_def)

lemma extendsBy_trans: "extendsBy P t t1 \<Longrightarrow> extendsBy P t1 t2 \<Longrightarrow> extendsBy P t t2"
  unfolding extendsBy_iff by auto

lemma extendsBy_append: "list_all P ev \<Longrightarrow> extendsBy P t (t @ ev)"
  unfolding extendsBy_iff by auto

lemma stateInv_refl: "stateInv s s"
  by (simp add: stateInv_def extendsBy_refl)

lemma stateInv_trans: "stateInv s s1 \<Longrightarrow> stateInv s1 s2 \<Longrightarrow> stateInv s s2"
  unfolding stateInv_def using extendsBy_trans by auto

lemma mapInv_refl: "mapInv s om om"
  by (simp add: mapInv_def)

lemma mapInv_trans:
  "stateInv s s1 \<Longrightarrow> mapInv s om om1 \<Longrightarrow> mapInv s1 om1 om2 \<Longrightarrow> mapInv s om om2"
  unfolding stateInv_def mapInv_def by auto

lemma unloadPresentOutlet_frame:
  "unloadPresentOutlet out comps s = (e, out', s') \<Longrightarrow>
     performMutation s' = performMutation s \<and> currTree s' = currTree s \<and> prevTree s' = prevTree s"
  "unloadOutlets m comps s = (e, m', s') \<Longrightarrow>
     performMutation s' = performMutation s \<and> currTree s' = currTree s \<and> prevTree s' = prevTree s"
  by (induction out comps s and m comps s arbitrary: e out' s' and e m' s'
        rule: unloadPresentOutlet_unloadOutlets.induct)
     (auto split: if_splits prod.splits option.splits)

lemma unloadPresentOutlet_dry:
  "\<not> performMutation s \<Longrightarrow> unloadPresentOutlet out comps s = (e, out', s') \<Longrightarrow>
     out' = out \<and> trace s' = trace s"
  "\<not> performMutation s \<Longrightarrow> unloadOutlets m comps s = (e, m', s') \<Longrightarrow>
     m' = m \<and> trace s' = trace s"
proof (induction out comps s and m comps s arbitrary: e out' s' and e m' s'
        rule: unloadPresentOutlet_unloadOutlets.induct)
  case (2 lc m components s)
  then show ?case
    by (auto split: if_splits prod.splits option.splits dest: unloadPresentOutlet_frame(2))
next
  case (4 k v rest components s)
  then show ?case
    by (auto split: if_splits prod.splits option.splits dest: unloadPresentOutlet_frame(1))
qed (auto split: if_splits)

lemma unloadPresentOutlet_trace:
  "unloadPresentOutlet out comps s = (e, out', s') \<Longrightarrow> extendsBy isMutation (trace s) (trace s')"
  "unloadOutlets m comps s = (e, m', s') \<Longrightarrow> extendsBy isMutation (trace s) (trace s')"
proof (induction out comps s and m comps s arbitrary: e out' s' and e m' s'
        rule: unloadPresentOutlet_unloadOutlets.induct)
  case (1 lc components s)
  then show ?case by (auto split: if_splits simp: extendsBy_refl)
next
  case (2 lc m components s)
  show ?case
  proof (cases "lc = Null")
    case True
    with 2(2) show ?thesis by (auto simp: extendsBy_refl)
  next
    case False
    obtain e1 m1 s1 where r: "unloadOutlets m components s = (e1, m1, s1)"
      by (metis prod_cases3)
    from 2(1)[OF False r] have a: "extendsBy isMutation (trace s) (trace s1)" .
    have b: "extendsBy isMutation (trace s1) (trace s')"
      using 2(2) False r
      by (auto split: option.splits if_splits
               simp: extendsBy_refl isMutation_def intro!: extendsBy_append)
    from a b show ?thesis by (rule extendsBy_trans)
  qed
next
  case (3 components s)
  then show ?case by (simp add: extendsBy_refl)
next
  case (4 k v rest components s)
  obtain e1 v1 s1 where r: "unloadPresentOutlet v components s = (e1, v1, s1)"
    by (metis prod_cases3)
  from 4(1)[OF r] have a: "extendsBy isMutation (trace s) (trace s1)" .
  show ?case
  proof (cases e1)
    case (Some x)
    with 4(3) r have "s' = s1" by auto
    with a show ?thesis by simp
  next
    case None
    obtain e2 m2 s2 where r2: "unloadOutlets rest components s1 = (e2, m2, s2)"
      by (metis prod_cases3)
    from 4(2)[OF r[symmetric] None refl r2]
    have b: "extendsBy isMutation (trace s1) (trace s2)" .
    from 4(3) r None r2 have "s' = s2" by auto
    with a b show ?thesis using extendsBy_trans by blast
  qed
qed

lemma unloadOutlet_inv:
  assumes "unloadOutlet out comps s = (e, out', s')"
  shows "stateInv s s'" and "\<not> performMutation s \<Longrightarrow> out' = out"
    and "(out' = None) = (out = None)"
proof -
  show "stateInv s s'"
  proof (cases out)
    case None
    with assms show ?thesis by (simp add: unloadOutlet_def stateInv_refl)
  next
    case (Some x)
    obtain e1 x1 s1 where r: "unloadPresentOutlet x comps s = (e1, x1, s1)"
      by (metis prod_cases3)
    with assms Some have "s' = s1" by (auto simp: unloadOutlet_def)
    with unloadPresentOutlet_frame(1)[OF r] unloadPresentOutlet_trace(1)[OF r]
      unloadPresentOutlet_dry(1)[OF _ r]
    show ?thesis by (auto simp: stateInv_def)
  qed
  show "\<not> performMutation s \<Longrightarrow> out' = out"
    using assms
    by (auto simp: unloadOutlet_def split: option.splits prod.splits
             dest: unloadPresentOutlet_dry(1))
  show "(out' = None) = (out = None)"
    using assms by (auto simp: unloadOutlet_def split: option.splits prod.splits)
qed


lemma mapInv_putOutlet:
  assumes "map_of m k = Some out" and "\<not> performMutation s \<Longrightarrow> x = out"
  shows "mapInv s (Some m) (putOutlet k (Some x) (Some m))"
  using assms
  by (auto simp: mapInv_def putOutlet_def update_keys_present update_same)

lemma unloadRemoved_inv:
  "unloadRemoved pc om comps s = (e, om', s') \<Longrightarrow> stateInv s s' \<and> mapInv s om om'"
proof (induction pc om comps s arbitrary: e om' s' rule: unloadRemoved.induct)
  case (1 outletMap' components s)
  then show ?case by (auto simp: stateInv_refl mapInv_refl)
next
  case (2 k v rest components s)
  then show ?case by (auto simp: stateInv_refl mapInv_refl)
next
  case (3 k v rest outlets components s)
  obtain e1 o1 s1 where r: "unloadOutlet (map_of outlets k) components s = (e1, o1, s1)"
    by (metis prod_cases3)
  note u = unloadOutlet_inv[OF r]
  have m: "mapInv s (Some outlets) (putOutlet k o1 (Some outlets))"
  proof (cases o1)
    case None
    then show ?thesis by (simp add: putOutlet_def mapInv_refl)
  next
    case (Some x)
    with u(3) obtain y where y: "map_of outlets k = Some y" by auto
    show ?thesis unfolding Some
      by (rule mapInv_putOutlet[OF y]) (use u(2) y Some in auto)
  qed
  show ?case
  proof (cases e1)
    case (Some x)
    with 3(2) r have "s' = s1" "om' = putOutlet k o1 (Some outlets)" by auto
    with u(1) m show ?thesis by simp
  next
    case None
    with 3(2) r
    have "unloadRemoved rest (putOutlet k o1 (Some outlets)) components s1 = (e, om', s')"
      by auto
    from 3(1)[OF r[symmetric] None refl this]
    have "stateInv s1 s'" "mapInv s1 (putOutlet k o1 (Some outlets)) om'" by auto
    with u(1) m show ?thesis
      using stateInv_trans mapInv_trans by blast
  qed
qed

lemma loadNewSegment_inv:
  "performMutation s \<Longrightarrow> loadNewSegment env c p out s = (r, s') \<Longrightarrow> stateInv s s'"
  by (auto simp: loadNewSegment_def stateInv_def isMutation_def extendsBy_refl
           split: sum.splits prod.splits intro!: extendsBy_append)

lemma getOutlet_Inr:
  "getOutlet env pom seg = Inr out \<Longrightarrow> \<exists>m. pom = Some m \<and> map_of m (outlet seg) = Some out"
  by (auto simp: getOutlet_def split: option.splits if_splits)


lemma loadSegments_noOutlet:
  "getOutlet env pom (val n) = Inl x \<Longrightarrow> loadSegments env n p pom comps s = (Some x, pom, s)"
  by (simp add: Let_def)

lemma loadSegments_reuse:
  "getOutlet env pom (val n) = Inr out \<Longrightarrow> equalSegments env (val n) (map_option val p) \<Longrightarrow>
   loadChildSegments env n p (outletMap out) (comps @ [loadedComponent out]) s = (e1, om1, s1) \<Longrightarrow>
   loadSegments env n p pom comps s =
     (e1, putOutlet (outlet (val n)) (Some (RouterOutlet (loadedComponent out) om1)) pom, s1)"
  by (simp add: Let_def)

lemma loadSegments_replace:
  "getOutlet env pom (val n) = Inr out \<Longrightarrow> \<not> equalSegments env (val n) (map_option val p) \<Longrightarrow>
   unloadOutlet (Some out) comps s = (e1, o1, s1) \<Longrightarrow>
   loadSegments env n p pom comps s =
     (case e1 of
        Some x \<Rightarrow> (Some x, putOutlet (outlet (val n)) o1 pom, s1)
      | None \<Rightarrow>
          if performMutation s1 then
            (case loadNewSegment env (val n) (map_option val p) o1 s1 of
               (Inl (x, failed), s2) \<Rightarrow> (Some x, putOutlet (outlet (val n)) failed pom, s2)
             | (Inr out2, s2) \<Rightarrow>
                 (case loadChildSegments env n p (outletMap out2)
                         (comps @ [loadedComponent out2]) s2 of
                    (e3, om3, s3) \<Rightarrow>
                      (e3, putOutlet (outlet (val n))
                             (Some (RouterOutlet (loadedComponent out2) om3)) pom, s3)))
          else (None, putOutlet (outlet (val n)) o1 pom, s1))"
  by (simp add: Let_def split: option.splits)

declare loadSegments.simps [simp del]

lemma walk_inv:
  "loadChildSegments env n p om comps s = (e, om', s') \<Longrightarrow> stateInv s s' \<and> mapInv s om om'"
  "loadChildren env cs pc om comps s = (e, pc', om', s') \<Longrightarrow> stateInv s s' \<and> mapInv s om om'"
  "loadSegments env n p om comps s = (e, om', s') \<Longrightarrow> stateInv s s' \<and> mapInv s om om'"
proof (induction env n p om comps s and env cs pc om comps s and env n p om comps s
        arbitrary: e om' s' and e pc' om' s' and e om' s'
        rule: loadChildSegments_loadChildren_loadSegments.induct)
  case (1 env v cs prevNode outletMap' components s)
  obtain e1 pc1 om1 s1
    where r: "loadChildren env cs (prevChildrenOf prevNode) outletMap' components s
                = (e1, pc1, om1, s1)"
    by (metis prod_cases4)
  from 1(1)[OF r] have a: "stateInv s s1" "mapInv s outletMap' om1" by auto
  show ?case
  proof (cases e1)
    case (Some x)
    with 1(2) r have "s' = s1" "om' = om1" by auto
    with a show ?thesis by simp
  next
    case None
    with 1(2) r have "unloadRemoved pc1 om1 components s1 = (e, om', s')" by auto
    from unloadRemoved_inv[OF this] a show ?thesis
      using stateInv_trans mapInv_trans by blast
  qed
next
  case (2 env prevChildren outletMap' components s)
  then show ?case by (auto simp: stateInv_refl mapInv_refl)
next
  case (3 env c cs prevChildren outletMap' components s)
  obtain e1 om1 s1
    where r: "loadSegments env c (map_of prevChildren (outlet (val c))) outletMap' components s
                = (e1, om1, s1)"
    by (metis prod_cases3)
  from 3(1)[OF r] have a: "stateInv s s1" "mapInv s outletMap' om1" by auto
  show ?case
  proof (cases e1)
    case (Some x)
    with 3(3) r have "s' = s1" "om' = om1" by auto
    with a show ?thesis by simp
  next
    case None
    with 3(3) r
    have "loadChildren env cs (AList.delete (outlet (val c)) prevChildren) om1 components s1
            = (e, pc', om', s')" by auto
    from 3(2)[OF r[symmetric] None refl this] a show ?thesis
      using stateInv_trans mapInv_trans by blast
  qed
next
  case (4 env currNode prevNode parentOutletMap components s)
  let ?k = "outlet (val currNode)"
  show ?case
  proof (cases "getOutlet env parentOutletMap (val currNode)")
    case (Inl x)
    from loadSegments_noOutlet[OF Inl] 4(3) show ?thesis
      by (auto simp: stateInv_refl mapInv_refl)
  next
    case (Inr out)
    then obtain m where m: "parentOutletMap = Some m" "map_of m ?k = Some out"
      using getOutlet_Inr by blast
    show ?thesis
    proof (cases "equalSegments env (val currNode) (map_option val prevNode)")
      case True
      obtain e1 om1 s1
        where r: "loadChildSegments env currNode prevNode (outletMap out)
                    (components @ [loadedComponent out]) s = (e1, om1, s1)"
        by (metis prod_cases3)
      from 4(1)[OF refl refl Inr True r]
      have a: "stateInv s s1" "mapInv s (outletMap out) om1" by auto
      from loadSegments_reuse[OF Inr True r] 4(3)
      have res: "s' = s1"
         "om' = putOutlet ?k (Some (RouterOutlet (loadedComponent out) om1)) parentOutletMap"
        by auto
      have "mapInv s (Some m) (putOutlet ?k (Some (RouterOutlet (loadedComponent out) om1)) (Some m))"
        by (rule mapInv_putOutlet[OF m(2)]) (use a(2) in \<open>auto simp: mapInv_def\<close>)
      with a(1) res m(1) show ?thesis by simp
    next
      case False
      obtain e1 o1 s1 where r: "unloadOutlet (Some out) components s = (e1, o1, s1)"
        by (metis prod_cases3)
      note u = unloadOutlet_inv[OF r]
      from u(3) obtain out1 where o1: "o1 = Some out1" by auto
      have pm: "performMutation s1 = performMutation s"
        using u(1) by (simp add: stateInv_def)
      have m1: "mapInv s (Some m) (putOutlet ?k o1 (Some m))" unfolding o1
        by (rule mapInv_putOutlet[OF m(2)]) (use u(2) o1 in auto)
      note eq = loadSegments_replace[OF Inr False r]
      show ?thesis
      proof (cases e1)
        case (Some x)
        with eq 4(3) have "s' = s1" "om' = putOutlet ?k o1 parentOutletMap" by auto
        with u(1) m1 m(1) show ?thesis by simp
      next
        case None
        show ?thesis
        proof (cases "performMutation s1")
          case False
          with eq None 4(3) have "s' = s1" "om' = putOutlet ?k o1 parentOutletMap" by auto
          with u(1) m1 m(1) show ?thesis by simp
        next
          case True
          obtain r2 s2
            where l: "loadNewSegment env (val currNode) (map_option val prevNode) o1 s1 = (r2, s2)"
            by (metis prod.exhaust)
          from loadNewSegment_inv[OF True l] have b: "stateInv s1 s2" .
          show ?thesis
          proof (cases r2)
            case (Inl x)
            obtain e2 failed where x: "x = (e2, failed)" by (cases x)
            with l Inl o1 obtain out3 where f: "failed = Some out3"
              by (auto simp: loadNewSegment_def split: sum.splits prod.splits)
            from eq None True l Inl x 4(3)
            have res: "s' = s2" "om' = putOutlet ?k failed parentOutletMap" by auto
            have "mapInv s (Some m) (putOutlet ?k (Some out3) (Some m))"
              by (rule mapInv_putOutlet[OF m(2)]) (use True pm in auto)
            with stateInv_trans[OF u(1) b] res f m(1) show ?thesis by simp
          next
            case (Inr out2)
            obtain e3 om3 s3
              where c: "loadChildSegments env currNode prevNode (outletMap out2)
                          (components @ [loadedComponent out2]) s2 = (e3, om3, s3)"
              by (metis prod_cases3)
            from 4(2)[OF refl refl \<open>getOutlet env parentOutletMap (val currNode) = Inr out\<close>
                        False r[symmetric] None refl True l[symmetric] Inr c]
            have d: "stateInv s2 s3" by auto
            from eq None True l Inr c 4(3)
            have res: "s' = s3"
              "om' = putOutlet ?k (Some (RouterOutlet (loadedComponent out2) om3)) parentOutletMap"
              by auto
            have "mapInv s (Some m)
                    (putOutlet ?k (Some (RouterOutlet (loadedComponent out2) om3)) (Some m))"
              by (rule mapInv_putOutlet[OF m(2)]) (use True pm in auto)
            with stateInv_trans[OF stateInv_trans[OF u(1) b] d] res m(1)
            show ?thesis by simp
          qed
        qed
      qed
    qed
  qed
qed

lemma unloadPresentOutlet_paths:
  "\<not> performMutation s \<Longrightarrow> unloadPresentOutlet out comps s = (None, out', s') \<Longrightarrow>
     deactivations s' = deactivations s @ map (\<lambda>c. comps @ [c]) (mounted out)"
  "\<not> performMutation s \<Longrightarrow> unloadOutlets m comps s = (None, m', s') \<Longrightarrow>
     deactivations s' = deactivations s @ map (\<lambda>c. comps @ [c]) (mountedAll m)"
proof (induction out comps s and m comps s arbitrary: out' s' and m' s'
        rule: unloadPresentOutlet_unloadOutlets.induct)
  case (1 lc components s)
  then show ?case by (auto split: if_splits)
next
  case (2 lc m components s)
  show ?case
  proof (cases "lc = Null")
    case True
    with 2(3) show ?thesis by auto
  next
    case False
    obtain e1 m1 s1 where r: "unloadOutlets m components s = (e1, m1, s1)"
      by (metis prod_cases3)
    from 2(3) False r have e1: "e1 = None"
      by (auto split: option.splits if_splits)
    from unloadPresentOutlet_frame(2)[OF r] 2(2) have pm: "\<not> performMutation s1" by simp
    from 2(3) False r e1 pm
    have s': "s' = s1\<lparr>deactivations := deactivations s1 @ [components @ [lc]]\<rparr>"
      by auto
    from 2(1)[OF False 2(2) r[unfolded e1]]
    have "deactivations s1 = deactivations s @ map (\<lambda>c. components @ [c]) (mountedAll m)" .
    with s' False show ?thesis by simp
  qed
next
  case (3 components s)
  then show ?case by simp
next
  case (4 k v rest components s)
  obtain e1 v1 s1 where r: "unloadPresentOutlet v components s = (e1, v1, s1)"
    by (metis prod_cases3)
  from 4(4) r have e1: "e1 = None"
    by (auto split: option.splits prod.splits)
  obtain e2 m2 s2 where r2: "unloadOutlets rest components s1 = (e2, m2, s2)"
    by (metis prod_cases3)
  from 4(4) r e1 r2 have e2: "e2 = None" and s': "s' = s2"
    by auto
  from unloadPresentOutlet_frame(1)[OF r] 4(3) have pm: "\<not> performMutation s1" by simp
  have a: "deactivations s1 = deactivations s @ map (\<lambda>c. components @ [c]) (mounted v)"
    using 4(1)[OF 4(3) r[unfolded e1]] by simp
  have b: "deactivations s2 = deactivations s1 @ map (\<lambda>c. components @ [c]) (mountedAll rest)"
    using 4(2)[OF r[unfolded e1, symmetric] refl refl pm r2[unfolded e2]] .
  from a b s' show ?case by simp
qed

section \<open>The paths collected by the first walk\<close>

lemma pathsOf_simps [simp]:
  "pathsOf [] = []"
  "pathsOf ((chain, out) # sites) = map (\<lambda>x. chain @ [x]) (mounted out) @ pathsOf sites"
  "pathsOf (xs @ ys) = pathsOf xs @ pathsOf ys"
  by (simp_all add: pathsOf_def)

lemma removedAt_simps:
  "getOutlet env om (val n) = Inl e \<Longrightarrow> removedAt env n p om chain = []"
  "getOutlet env om (val n) = Inr out \<Longrightarrow> equalSegments env (val n) (map_option val p) \<Longrightarrow>
     removedAt env n p om chain
       = removedBelow env n p (outletMap out) (chain @ [loadedComponent out])"
  "getOutlet env om (val n) = Inr out \<Longrightarrow> \<not> equalSegments env (val n) (map_option val p) \<Longrightarrow>
     removedAt env n p om chain = [(chain, out)]"
  by simp_all

declare removedAt.simps [simp del]

lemma unloadOutlet_paths:
  "\<not> performMutation s \<Longrightarrow> unloadOutlet out components s = (None, out', s') \<Longrightarrow>
     deactivations s' = deactivations s @
       map (\<lambda>c. components @ [c]) (case out of None \<Rightarrow> [] | Some x \<Rightarrow> mounted x)"
  using unloadPresentOutlet_paths(1)[of s _ components]
  by (auto simp: unloadOutlet_def split: prod.splits option.splits)

lemma unloadRemoved_paths:
  "\<not> performMutation s \<Longrightarrow> unloadRemoved pc om comps s = (None, om', s') \<Longrightarrow>
     deactivations s' = deactivations s @ pathsOf (removedLeftover pc om comps)"
proof (induction pc om comps s arbitrary: om' s' rule: unloadRemoved.induct)
  case (1 outletMap' components s)
  then show ?case by (simp add: removedLeftover_def)
next
  case (2 k v rest components s)
  then show ?case by simp
next
  case (3 k v rest outlets components s)
  obtain e1 o1 s1 where r: "unloadOutlet (map_of outlets k) components s = (e1, o1, s1)"
    by (metis prod_cases3)
  note u = unloadOutlet_inv[OF r]
  from 3(3) r have e1: "e1 = None" by (cases e1) auto
  from u(2) 3(2) have o1: "o1 = map_of outlets k" by simp
  have p: "putOutlet k o1 (Some outlets) = Some outlets"
    unfolding o1 by (cases "map_of outlets k") (simp_all add: putOutlet_def update_same)
  from u(1) 3(2) have pm: "\<not> performMutation s1" by (simp add: stateInv_def)
  from 3(3) r e1 p have rest: "unloadRemoved rest (Some outlets) components s1 = (None, om', s')"
    by auto
  have a: "deactivations s1 = deactivations s @
       map (\<lambda>c. components @ [c]) (case map_of outlets k of None \<Rightarrow> [] | Some x \<Rightarrow> mounted x)"
    using unloadOutlet_paths[OF 3(2) r[unfolded e1]] .
  have b: "deactivations s' = deactivations s1 @ pathsOf (removedLeftover rest (Some outlets) components)"
    using 3(1)[OF r[symmetric] e1 refl pm] rest p by simp
  have c: "pathsOf (removedLeftover ((k, v) # rest) (Some outlets) components)
             = map (\<lambda>c. components @ [c]) (case map_of outlets k of None \<Rightarrow> [] | Some x \<Rightarrow> mounted x)
               @ pathsOf (removedLeftover rest (Some outlets) components)"
    by (cases "map_of outlets k") (simp_all add: removedLeftover_def pathsOf_def)
  from a b c show ?case by simp
qed

lemma walk_dry:
  assumes "\<not> performMutation s"
  shows "loadChildSegments env n p om comps s = (e, om', s') \<Longrightarrow>
           om' = om \<and> \<not> performMutation s'"
    and "loadChildren env cs pc om comps s = (e, pc', om', s') \<Longrightarrow>
           om' = om \<and> \<not> performMutation s'"
    and "loadSegments env n p om comps s = (e, om', s') \<Longrightarrow>
           om' = om \<and> \<not> performMutation s'"
  using assms walk_inv[of env] by (auto simp: stateInv_def mapInv_def)

lemma walk_paths:
  "\<not> performMutation s \<Longrightarrow> loadChildSegments env n p om comps s = (None, om', s') \<Longrightarrow>
     deactivations s' = deactivations s @ pathsOf (removedBelow env n p om comps)"
  "\<not> performMutation s \<Longrightarrow> loadChildren env cs pc om comps s = (None, pc', om', s') \<Longrightarrow>
     deactivations s' = deactivations s @ pathsOf (removedAmong env cs pc om comps) \<and>
     pc' = fold (\<lambda>c. AList.delete (outlet (val c))) cs pc"
  "\<not> performMutation s \<Longrightarrow> loadSegments env n p om comps s = (None, om', s') \<Longrightarrow>
     deactivations s' = deactivations s @ pathsOf (removedAt env n p om comps)"
proof (induction env n p om comps s and env cs pc om comps s and env n p om comps s
        arbitrary: om' s' and pc' om' s' and om' s'
        rule: loadChildSegments_loadChildren_loadSegments.induct)
  case (1 env v cs prevNode outletMap' components s)
  obtain e1 pc1 om1 s1
    where r: "loadChildren env cs (prevChildrenOf prevNode) outletMap' components s
                = (e1, pc1, om1, s1)"
    by (metis prod_cases4)
  from 1(3) r have e1: "e1 = None" by (cases e1) auto
  from walk_dry(2)[OF 1(2) r] have d: "om1 = outletMap'" "\<not> performMutation s1" by auto
  from 1(1)[OF 1(2) r[unfolded e1]]
  have a: "deactivations s1 = deactivations s @
             pathsOf (removedAmong env cs (prevChildrenOf prevNode) outletMap' components)"
    and pc1: "pc1 = fold (\<lambda>c. AList.delete (outlet (val c))) cs (prevChildrenOf prevNode)"
    by auto
  from 1(3) r e1 d have "unloadRemoved pc1 outletMap' components s1 = (None, om', s')" by auto
  from unloadRemoved_paths[OF d(2) this] a pc1 show ?case by simp
next
  case (2 env prevChildren outletMap' components s)
  then show ?case by auto
next
  case (3 env c cs prevChildren outletMap' components s)
  obtain e1 om1 s1
    where r: "loadSegments env c (map_of prevChildren (outlet (val c))) outletMap' components s
                = (e1, om1, s1)"
    by (metis prod_cases3)
  from 3(4) r have e1: "e1 = None" by (cases e1) auto
  from walk_dry(3)[OF 3(3) r] have d: "om1 = outletMap'" "\<not> performMutation s1" by auto
  from 3(1)[OF 3(3) r[unfolded e1]]
  have a: "deactivations s1 = deactivations s @
             pathsOf (removedAt env c (map_of prevChildren (outlet (val c))) outletMap' components)" .
  from 3(4) r e1 d
  have rest: "loadChildren env cs (AList.delete (outlet (val c)) prevChildren) outletMap'
                components s1 = (None, pc', om', s')"
    by auto
  from 3(2)[OF r[symmetric] e1 refl d(2)] rest d(1)
  have b: "deactivations s' = deactivations s1 @
             pathsOf (removedAmong env cs (AList.delete (outlet (val c)) prevChildren)
                        outletMap' components)"
    and pc': "pc' = fold (\<lambda>c. AList.delete (outlet (val c))) cs
                      (AList.delete (outlet (val c)) prevChildren)"
    by auto
  from a b pc' show ?case by simp
next
  case (4 env currNode prevNode parentOutletMap components s)
  show ?case
  proof (cases "getOutlet env parentOutletMap (val currNode)")
    case (Inl x)
    from loadSegments_noOutlet[OF Inl] 4(4) show ?thesis by simp
  next
    case (Inr out)
    show ?thesis
    proof (cases "equalSegments env (val currNode) (map_option val prevNode)")
      case True
      obtain e1 om1 s1
        where r: "loadChildSegments env currNode prevNode (outletMap out)
                    (components @ [loadedComponent out]) s = (e1, om1, s1)"
        by (metis prod_cases3)
      from loadSegments_reuse[OF Inr True r] 4(4) have res: "e1 = None" "s' = s1" by auto
      from 4(1)[OF refl refl Inr True 4(3) r[unfolded res(1)]] res
        removedAt_simps(2)[OF Inr True]
      show ?thesis by simp
    next
      case False
      obtain e1 o1 s1 where r: "unloadOutlet (Some out) components s = (e1, o1, s1)"
        by (metis prod_cases3)
      note u = unloadOutlet_inv[OF r]
      from u(1) 4(3) have pm: "\<not> performMutation s1" by (simp add: stateInv_def)
      from loadSegments_replace[OF Inr False r] 4(4) pm
      have res: "e1 = None" "s' = s1" by (cases e1; auto)+
      from unloadOutlet_paths[OF 4(3) r[unfolded res(1)]] res removedAt_simps(3)[OF Inr False]
      show ?thesis by simp
    qed
  qed
qed

lemma removed_chain:
  "(chain, out) \<in> set (removedBelow env n p om comps) \<Longrightarrow> \<exists>ext. chain = comps @ ext"
  "(chain, out) \<in> set (removedAmong env cs pc om comps) \<Longrightarrow> \<exists>ext. chain = comps @ ext"
  "(chain, out) \<in> set (removedAt env n p om comps) \<Longrightarrow> \<exists>ext. chain = comps @ ext"
proof (induction env n p om comps and env cs pc om comps and env n p om comps
        rule: removedBelow_removedAmong_removedAt.induct)
  case (1 env v cs prevNode outletMap' chain')
  then show ?case
    by (auto simp: removedLeftover_def split: option.splits)
next
  case (2 env prevChildren outletMap' chain')
  then show ?case by simp
next
  case (3 env c cs prevChildren outletMap' chain')
  then show ?case by auto
next
  case (4 env currNode prevNode outletMap' chain')
  show ?case
  proof (cases "getOutlet env outletMap' (val currNode)")
    case (Inl e)
    with 4(2) show ?thesis by (simp add: removedAt_simps)
  next
    case (Inr o1)
    show ?thesis
    proof (cases "equalSegments env (val currNode) (map_option val prevNode)")
      case True
      with 4(2) Inr have "(chain, out) \<in> set (removedBelow env currNode prevNode (outletMap o1)
                                         (chain' @ [loadedComponent o1]))"
        by (simp add: removedAt_simps)
      from 4(1)[OF Inr True this] show ?thesis by auto
    next
      case False
      with 4(2) Inr show ?thesis by (simp add: removedAt_simps)
    qed
  qed
qed

lemma collected_path_shape:
  "path \<in> set (pathsOf (removedBelow env n p om comps)) \<Longrightarrow>
     \<exists>ext x. path = comps @ ext @ [x]"
  using removed_chain(1)[of _ _ env n p om comps]
  by (fastforce simp: pathsOf_def)

lemma canDeactivate_paths:
  assumes "loadChildSegments env currRoot prevRoot om [root] (s\<lparr>performMutation := False\<rparr>)
             = (None, om1, s1)"
  shows "deactivations (snd (snd (canDeactivate env s currRoot prevRoot om root)))
           = deactivations s @ pathsOf (removedBelow env currRoot prevRoot om [root])"
proof -
  have "\<not> performMutation (s\<lparr>performMutation := False\<rparr>)" by simp
  from walk_paths(1)[OF this assms]
  have "deactivations s1 = deactivations s @ pathsOf (removedBelow env currRoot prevRoot om [root])"
    by simp
  with assms show ?thesis by (simp add: canDeactivate_def Let_def)
qed

section \<open>The guard chain of one path\<close>

lemma guardStep_stuck:
  "\<forall>b. pr \<noteq> Resolved b \<Longrightarrow> fold (guardStep env s) ps (pr, calls) = (pr, calls)"
  by (induction ps) (auto simp: guardStep_def split: promise.splits)

lemma guard_chain:
  "\<exists>rest. calls @ filter (hasLifecycleHook env ''routerCanDeactivate'') ps
            = snd (fold (guardStep env s) ps (pr, calls)) @ rest"
  "fst (fold (guardStep env s) ps (pr, calls)) = Resolved b \<Longrightarrow>
     snd (fold (guardStep env s) ps (pr, calls))
       = calls @ filter (hasLifecycleHook env ''routerCanDeactivate'') ps"
proof (induction ps arbitrary: pr calls)
  case Nil
  { case 1 show ?case by simp }
  { case 2 show ?case by simp }
next
  case (Cons p ps)
  { case 1
    show ?case
    proof (cases pr)
      case (Resolved x)
      then show ?thesis
        using Cons(1)[of "calls @ [p]" "routerCanDeactivate env p (prevTree s) (currTree s)"]
              Cons(1)[of calls "Resolved x"]
        by (auto simp: guardStep_def)
    next
      case (Rejected e)
      then have "fold (guardStep env s) (p # ps) (pr, calls) = (pr, calls)"
        by (intro guardStep_stuck) simp
      then show ?thesis by (simp del: fold_simps)
    next
      case Pending
      then have "fold (guardStep env s) (p # ps) (pr, calls) = (pr, calls)"
        by (intro guardStep_stuck) simp
      then show ?thesis by (simp del: fold_simps)
    qed }
  { case 2
    show ?case
    proof (cases pr)
      case (Resolved x)
      then show ?thesis
        using 2 Cons(2)[of "routerCanDeactivate env p (prevTree s) (currTree s)" "calls @ [p]"]
              Cons(2)[of "Resolved x" calls]
        by (auto simp: guardStep_def)
    next
      case (Rejected e)
      then have "fold (guardStep env s) (p # ps) (pr, calls) = (pr, calls)"
        by (intro guardStep_stuck) simp
      with 2 Rejected show ?thesis by (simp del: fold_simps)
    next
      case Pending
      then have "fold (guardStep env s) (p # ps) (pr, calls) = (pr, calls)"
        by (intro guardStep_stuck) simp
      with 2 Pending show ?thesis by (simp del: fold_simps)
    qed }
qed

lemma guard_chain_resolves:
  "\<forall>p \<in> set ps. hasLifecycleHook env ''routerCanDeactivate'' p \<longrightarrow>
      (\<exists>b. routerCanDeactivate env p (prevTree s) (currTree s) = Resolved b) \<Longrightarrow>
   \<exists>b. fst (fold (guardStep env s) ps (Resolved x, calls)) = Resolved b"
  by (induction ps arbitrary: x calls) (auto simp: guardStep_def)

lemma guardStep_resolved:
  "fst acc = Resolved b \<Longrightarrow>
     fst (guardStep env s p acc) =
       (if hasLifecycleHook env ''routerCanDeactivate'' p
        then routerCanDeactivate env p (prevTree s) (currTree s) else Resolved b)"
  by (simp add: guardStep_def)

lemma guard_chain_value:
  "\<forall>p \<in> set ps. hasLifecycleHook env ''routerCanDeactivate'' p \<longrightarrow>
      (\<exists>b. routerCanDeactivate env p (prevTree s) (currTree s) = Resolved b) \<Longrightarrow>
   fst (fold (guardStep env s) ps (Resolved x, calls)) =
     (case filter (hasLifecycleHook env ''routerCanDeactivate'') (rev ps) of
        [] \<Rightarrow> Resolved x
      | g # rest \<Rightarrow> routerCanDeactivate env g (prevTree s) (currTree s))"
proof (induction ps rule: rev_induct)
  case Nil
  then show ?case by simp
next
  case (snoc p ps)
  from snoc(2) have all: "\<forall>p \<in> set ps. hasLifecycleHook env ''routerCanDeactivate'' p \<longrightarrow>
      (\<exists>b. routerCanDeactivate env p (prevTree s) (currTree s) = Resolved b)"
    by simp
  from guard_chain_resolves[OF all] obtain b where
    b: "fst (fold (guardStep env s) ps (Resolved x, calls)) = Resolved b"
    by blast
  show ?case
  proof (cases "hasLifecycleHook env ''routerCanDeactivate'' p")
    case True
    with guardStep_resolved[OF b, of env s p] show ?thesis by simp
  next
    case False
    with guardStep_resolved[OF b, of env s p] b snoc(1)[OF all] show ?thesis by simp
  qed
qed

text \<open>
  When every guard on a path resolves, the chain resolves with the value of the guard of the
  outermost guard-bearing resource of the path (with true when no resource has a guard).
\<close>

lemma chain_value_is_outermost_guard:
  "\<forall>p \<in> set path. hasLifecycleHook env ''routerCanDeactivate'' p \<longrightarrow>
      (\<exists>b. routerCanDeactivate env p (prevTree s) (currTree s) = Resolved b) \<Longrightarrow>
   fst (checkCanDeactivatePath env s path) =
     (case filter (hasLifecycleHook env ''routerCanDeactivate'') path of
        [] \<Rightarrow> Resolved True
      | g # rest \<Rightarrow> routerCanDeactivate env g (prevTree s) (currTree s))"
  using guard_chain_value[of "rev path" env s True "[]"]
  by (simp add: checkCanDeactivatePath_def)

text \<open>
  C7: within one deactivation path the guards are called from the innermost resource to the
  outermost. The calls made by \<open>checkCanDeactivatePath\<close> are an initial part of the
  guard-bearing resources of the path read from its last element to its first, and all of
  them, in that order, whenever the chain resolves: for the path [outer, mid, inner] the
  order is inner, mid, outer.
\<close>

theorem guard_order_inner_to_outer:
  "(\<exists>rest. filter (hasLifecycleHook env ''routerCanDeactivate'') (rev path)
             = snd (checkCanDeactivatePath env s path) @ rest) \<and>
   (\<forall>b. fst (checkCanDeactivatePath env s path) = Resolved b \<longrightarrow>
      snd (checkCanDeactivatePath env s path)
        = filter (hasLifecycleHook env ''routerCanDeactivate'') (rev path))"
  using guard_chain(1)[of "[]" env "rev path" s "Resolved True"]
        guard_chain(2)[of env s "rev path" "Resolved True" "[]"]
  by (auto simp: checkCanDeactivatePath_def)

theorem guard_order_inner_to_outer_witness:
  "fst (checkCanDeactivatePath (exampleEnv allConsent) dryRun
          [Instance 0, Instance 1, Instance 2]) = Resolved True \<and>
   snd (checkCanDeactivatePath (exampleEnv allConsent) dryRun
          [Instance 0, Instance 1, Instance 2]) = [Instance 2, Instance 1, Instance 0]"
proof -
  let ?env = "exampleEnv allConsent" and ?path = "[Instance 0, Instance 1, Instance 2]"
  have r: "fst (checkCanDeactivatePath ?env dryRun ?path) = Resolved True"
    by (simp add: checkCanDeactivatePath_def guardStep_def exampleEnv_def allConsent_def)
  have f: "filter (hasLifecycleHook ?env ''routerCanDeactivate'') (rev ?path)
             = [Instance 2, Instance 1, Instance 0]"
    by (simp add: exampleEnv_def allConsent_def)
  from guard_order_inner_to_outer[of ?env ?path dryRun] r
  have "snd (checkCanDeactivatePath ?env dryRun ?path)
          = filter (hasLifecycleHook ?env ''routerCanDeactivate'') (rev ?path)"
    by blast
  with r f show ?thesis by simp
qed

text \<open>
  C1: the chain does not keep a veto. With the path [outer, inner], the guard of the inner
  resource resolving false and the guard of the outer resource resolving true, both guards
  are called and the chain resolves true: the value of the outer guard replaces the veto.
\<close>

theorem outer_guard_overrides_inner_veto:
  "routerCanDeactivate (exampleEnv innerVetoes) (Instance 1) (prevTree dryRun) (currTree dryRun)
     = Resolved False \<and>
   checkCanDeactivatePath (exampleEnv innerVetoes) dryRun [Instance 0, Instance 1]
     = (Resolved True, [Instance 1, Instance 0])"
  by (simp add: checkCanDeactivatePath_def guardStep_def exampleEnv_def innerVetoes_def)

section \<open>Removal of outlets\<close>

lemma unloadOutlet_noop:
  assumes "absentOrUnloaded out"
  shows "unloadOutlet out components s = (None, out, s)"
proof (cases out)
  case None
  then show ?thesis by (simp add: unloadOutlet_def)
next
  case (Some x)
  obtain lc om where x: "x = RouterOutlet lc om" by (cases x)
  from assms Some x have "lc = Null" by (simp add: isLoaded_def absentOrUnloaded_def)
  with x have "unloadPresentOutlet x components s = (None, x, s)"
    by (cases om) simp_all
  with Some show ?thesis by (simp add: unloadOutlet_def)
qed

lemma unloadRemoved_noop:
  "(\<forall>k \<in> set (map fst prevChildren). absentOrUnloaded (map_of outlets k)) \<Longrightarrow>
   unloadRemoved prevChildren (Some outlets) components s = (None, Some outlets, s)"
proof (induction prevChildren)
  case Nil
  show ?case by simp
next
  case (Cons kv rest)
  obtain k v where kv: "kv = (k, v)" by (cases kv)
  from Cons(2) kv have "absentOrUnloaded (map_of outlets k)" by simp
  then have u: "unloadOutlet (map_of outlets k) components s = (None, map_of outlets k, s)"
    by (rule unloadOutlet_noop)
  have p: "putOutlet k (map_of outlets k) (Some outlets) = Some outlets"
    by (cases "map_of outlets k") (simp_all add: putOutlet_def update_same)
  from Cons(2) have "\<forall>k \<in> set (map fst rest). absentOrUnloaded (map_of outlets k)" by simp
  then have ih: "unloadRemoved rest (Some outlets) components s = (None, Some outlets, s)"
    by (rule Cons(1))
  show ?case unfolding kv by (simp add: u p ih)
qed

text \<open>
  C10: a previous node slated for removal whose outlet is absent from the parent registry, or
  whose outlet has no loaded component, is passed over: \<open>unloadOutlet\<close> returns without an
  exception and leaves the outlet, the collected deactivation paths (hence the guards to
  consult) and the log of mounts and unmounts as they were, whatever lies below the outlet and
  whether mutation is enabled or not; and the closing loop of \<open>loadChildSegments\<close> over
  such removed children changes nothing.
\<close>

theorem removal_without_loaded_outlet_is_noop:
  "(absentOrUnloaded out \<longrightarrow> unloadOutlet out components s = (None, out, s)) \<and>
   ((\<forall>k \<in> set (map fst prevChildren). absentOrUnloaded (map_of outlets k)) \<longrightarrow>
      unloadRemoved prevChildren (Some outlets) components s = (None, Some outlets, s))"
  using unloadOutlet_noop unloadRemoved_noop by blast

theorem removal_without_loaded_outlet_is_noop_witness:
  "map fst removedChildren = [''aux'', ''popup''] \<and>
   absentOrUnloaded (map_of staleOutlets ''aux'') \<and>
   absentOrUnloaded (map_of staleOutlets ''popup'') \<and>
   unloadRemoved removedChildren (Some staleOutlets) [Instance 0] dryRun
     = (None, Some staleOutlets, dryRun) \<and>
   unloadRemoved removedChildren (Some staleOutlets) [Instance 0]
       (dryRun\<lparr>performMutation := True\<rparr>)
     = (None, Some staleOutlets, dryRun\<lparr>performMutation := True\<rparr>) \<and>
   map_of staleOutlets ''popup'' = None \<and>
   unloadOutlet (map_of staleOutlets ''popup'') [Instance 0] dryRun
     = (None, map_of staleOutlets ''popup'', dryRun) \<and>
   map_of staleOutlets ''aux''
     = Some (RouterOutlet Null (Some [(''inner'', RouterOutlet (Instance 5) (Some []))])) \<and>
   unloadOutlet (map_of staleOutlets ''aux'') [Instance 0] dryRun
     = (None, map_of staleOutlets ''aux'', dryRun)"
proof -
  have h: "\<forall>k \<in> set (map fst removedChildren). absentOrUnloaded (map_of staleOutlets k)"
    by (simp add: removedChildren_def staleOutlets_def isLoaded_def absentOrUnloaded_def)
  have a: "map_of staleOutlets ''popup'' = None" by (simp add: staleOutlets_def)
  have b: "map_of staleOutlets ''aux''
     = Some (RouterOutlet Null (Some [(''inner'', RouterOutlet (Instance 5) (Some []))]))"
    by (simp add: staleOutlets_def)
  have a': "absentOrUnloaded (map_of staleOutlets ''popup'')"
    by (simp add: a absentOrUnloaded_def)
  have b': "absentOrUnloaded (map_of staleOutlets ''aux'')"
    by (simp add: b absentOrUnloaded_def isLoaded_def)
  note t1 = removal_without_loaded_outlet_is_noop[of "map_of staleOutlets ''popup''"
              "[Instance 0]" dryRun removedChildren staleOutlets]
  note t2 = removal_without_loaded_outlet_is_noop[of "map_of staleOutlets ''aux''"
              "[Instance 0]" "dryRun\<lparr>performMutation := True\<rparr>" removedChildren staleOutlets]
  note t3 = removal_without_loaded_outlet_is_noop[of "map_of staleOutlets ''aux''"
              "[Instance 0]" dryRun removedChildren staleOutlets]
  have c1: "unloadRemoved removedChildren (Some staleOutlets) [Instance 0] dryRun
     = (None, Some staleOutlets, dryRun)"
    using t1[THEN conjunct2] h by (rule mp)
  have c2: "unloadRemoved removedChildren (Some staleOutlets) [Instance 0]
       (dryRun\<lparr>performMutation := True\<rparr>)
     = (None, Some staleOutlets, dryRun\<lparr>performMutation := True\<rparr>)"
    using t2[THEN conjunct2] h by (rule mp)
  have c3: "unloadOutlet (map_of staleOutlets ''popup'') [Instance 0] dryRun
     = (None, map_of staleOutlets ''popup'', dryRun)"
    using t1[THEN conjunct1] a' by (rule mp)
  have c4: "unloadOutlet (map_of staleOutlets ''aux'') [Instance 0] dryRun
     = (None, map_of staleOutlets ''aux'', dryRun)"
    using t3[THEN conjunct1] b' by (rule mp)
  have k: "map fst removedChildren = [''aux'', ''popup'']"
    by (simp add: removedChildren_def)
  from k a' b' a b c1 c2 c3 c4 show ?thesis by (intro conjI)
qed

text \<open>
  C6, as stated, fails: below the removed outlet holding instance 1, instance 3 is mounted
  under instance 2, and the path collected for instance 3 is the chain above the removed
  subtree followed by instance 3 alone; no collected path runs through the removed
  subtree.
\<close>

theorem descendant_path_omits_removed_ancestors:
  "unloadOutlet (Some nestedOutlet) [Instance 0] dryRun
     = (None, Some nestedOutlet,
        dryRun\<lparr>deactivations :=
          [[Instance 0, Instance 3], [Instance 0, Instance 2], [Instance 0, Instance 4],
           [Instance 0, Instance 1]]\<rparr>) \<and>
   [Instance 0, Instance 1, Instance 2, Instance 3]
     \<notin> set (deactivations (snd (snd (unloadOutlet (Some nestedOutlet) [Instance 0] dryRun))))"
proof -
  have r: "unloadOutlet (Some nestedOutlet) [Instance 0] dryRun
     = (None, Some nestedOutlet,
        dryRun\<lparr>deactivations :=
          [[Instance 0, Instance 3], [Instance 0, Instance 2], [Instance 0, Instance 4],
           [Instance 0, Instance 1]]\<rparr>)"
    by (simp add: unloadOutlet_def nestedOutlet_def dryRun_def new_LoadSegments_def)
  show ?thesis unfolding r by simp
qed

text \<open>
  C6, amended: in the dry run every removed subtree (the outlet of a node that differs from
  its previous node, or of a previous child that no current child claims) gives one
  deactivation path for each mounted resource of it, and that path is the chain above the
  removed subtree, which is the root component followed by the components of the reused
  ancestors from the outermost to the innermost, followed by that resource alone; the paths
  of the resources nested in an outlet come before the path of the outlet's own resource.
  This holds for a single \<open>unloadOutlet\<close>, for every walk with mutation disabled that
  returns (the collected paths are those of the removed subtrees in walk order), and so for
  the paths that \<open>canDeactivate\<close> hands to the guards; and every such path is the
  \<open>components\<close> argument of the walk, then components of nodes below, then one resource.
\<close>

theorem removed_subtree_paths:
  "(\<not> performMutation s \<and> unloadOutlet (Some out) components s = (None, out', s') \<longrightarrow>
      deactivations s' = deactivations s @ map (\<lambda>c. components @ [c]) (mounted out)) \<and>
   (\<not> performMutation s \<and>
    loadChildSegments env currNode prevNode om components s = (None, om', s') \<longrightarrow>
      deactivations s' = deactivations s @
        pathsOf (removedBelow env currNode prevNode om components)) \<and>
   (loadChildSegments env currRoot prevRoot om [root] (s\<lparr>performMutation := False\<rparr>)
      = (None, om1, s1) \<longrightarrow>
      deactivations (snd (snd (canDeactivate env s currRoot prevRoot om root)))
        = deactivations s @ pathsOf (removedBelow env currRoot prevRoot om [root])) \<and>
   (path \<in> set (pathsOf (removedBelow env currNode prevNode om components)) \<longrightarrow>
      (\<exists>ext x. path = components @ ext @ [x]))"
  using unloadOutlet_paths[of s "Some out" components out' s']
        walk_paths(1)[of s env currNode prevNode om components om' s']
        canDeactivate_paths[of env currRoot prevRoot om root s om1 s1]
        collected_path_shape[of path env currNode prevNode om components]
  by simp

theorem removed_subtree_paths_witness:
  "\<not> performMutation nestedDryRun \<and>
   loadChildSegments (exampleEnv noGuards) (rootNode teamOtherUserTree)
       (Some (rootNode teamUserTree)) (Some (routerOutletMap nestedRouter)) [Instance 0]
       nestedDryRun
     = (None, Some (routerOutletMap nestedRouter),
        nestedDryRun\<lparr>deactivations :=
          [[Instance 0, Instance 1, Instance 3], [Instance 0, Instance 1, Instance 2],
           [Instance 0, Instance 1, Instance 4]]\<rparr>) \<and>
   removedBelow (exampleEnv noGuards) (rootNode teamOtherUserTree)
       (Some (rootNode teamUserTree)) (Some (routerOutletMap nestedRouter)) [Instance 0]
     = [([Instance 0, Instance 1],
         RouterOutlet (Instance 2) (Some [(''primary'', RouterOutlet (Instance 3) (Some []))])),
        ([Instance 0, Instance 1], RouterOutlet (Instance 4) (Some []))] \<and>
   deactivations (nestedDryRun\<lparr>deactivations :=
          [[Instance 0, Instance 1, Instance 3], [Instance 0, Instance 1, Instance 2],
           [Instance 0, Instance 1, Instance 4]]\<rparr>)
     = deactivations nestedDryRun @
       pathsOf (removedBelow (exampleEnv noGuards) (rootNode teamOtherUserTree)
                  (Some (rootNode teamUserTree)) (Some (routerOutletMap nestedRouter))
                  [Instance 0]) \<and>
   \<not> performMutation dryRun \<and>
   unloadOutlet (Some nestedOutlet) [Instance 0] dryRun
     = (None, Some nestedOutlet,
        dryRun\<lparr>deactivations :=
          [[Instance 0, Instance 3], [Instance 0, Instance 2], [Instance 0, Instance 4],
           [Instance 0, Instance 1]]\<rparr>) \<and>
   mounted nestedOutlet = [Instance 3, Instance 2, Instance 4, Instance 1] \<and>
   deactivations (dryRun\<lparr>deactivations :=
          [[Instance 0, Instance 3], [Instance 0, Instance 2], [Instance 0, Instance 4],
           [Instance 0, Instance 1]]\<rparr>)
     = deactivations dryRun @ map (\<lambda>c. [Instance 0] @ [c]) (mounted nestedOutlet) \<and>
   [Instance 0, Instance 1, Instance 3]
     \<in> set (pathsOf (removedBelow (exampleEnv noGuards) (rootNode teamOtherUserTree)
                        (Some (rootNode teamUserTree)) (Some (routerOutletMap nestedRouter))
                        [Instance 0])) \<and>
   (\<exists>ext x. [Instance 0, Instance 1, Instance 3] = [Instance 0] @ ext @ [x])"
proof -
  let ?env = "exampleEnv noGuards"
  let ?paths = "[[Instance 0, Instance 1, Instance 3], [Instance 0, Instance 1, Instance 2],
           [Instance 0, Instance 1, Instance 4]]"
  have pm: "\<not> performMutation nestedDryRun" by (simp add: nestedDryRun_def)
  have w: "loadChildSegments ?env (rootNode teamOtherUserTree)
       (Some (rootNode teamUserTree)) (Some (routerOutletMap nestedRouter)) [Instance 0]
       nestedDryRun
     = (None, Some (routerOutletMap nestedRouter), nestedDryRun\<lparr>deactivations := ?paths\<rparr>)"
    by (simp add: scenario_defs nestedDryRun_def nestedRouter_def nestedOutlet_def
          teamOtherUserTree_def teamUserTree_def noGuards_def)
  have b: "removedBelow ?env (rootNode teamOtherUserTree)
       (Some (rootNode teamUserTree)) (Some (routerOutletMap nestedRouter)) [Instance 0]
     = [([Instance 0, Instance 1],
         RouterOutlet (Instance 2) (Some [(''primary'', RouterOutlet (Instance 3) (Some []))])),
        ([Instance 0, Instance 1], RouterOutlet (Instance 4) (Some []))]"
    by (simp add: removedAt.simps removedLeftover_def exampleEnv_def mkSegment_def
          prevChildrenOf_def getOutlet_def nestedRouter_def nestedOutlet_def
          teamOtherUserTree_def teamUserTree_def)
  have pm': "\<not> performMutation dryRun" by (simp add: dryRun_def)
  have r: "unloadOutlet (Some nestedOutlet) [Instance 0] dryRun
     = (None, Some nestedOutlet,
        dryRun\<lparr>deactivations :=
          [[Instance 0, Instance 3], [Instance 0, Instance 2], [Instance 0, Instance 4],
           [Instance 0, Instance 1]]\<rparr>)"
    by (simp add: unloadOutlet_def nestedOutlet_def dryRun_def new_LoadSegments_def)
  have m: "mounted nestedOutlet = [Instance 3, Instance 2, Instance 4, Instance 1]"
    by (simp add: nestedOutlet_def)
  note t1 = removed_subtree_paths[where s = nestedDryRun and components = "[Instance 0]"
              and s' = "nestedDryRun\<lparr>deactivations := ?paths\<rparr>" and env = ?env
              and currNode = "rootNode teamOtherUserTree"
              and prevNode = "Some (rootNode teamUserTree)"
              and om = "Some (routerOutletMap nestedRouter)"
              and om' = "Some (routerOutletMap nestedRouter)"
              and path = "[Instance 0, Instance 1, Instance 3]"]
  note t2 = removed_subtree_paths[where s = dryRun and out = nestedOutlet
              and components = "[Instance 0]" and out' = "Some nestedOutlet"
              and s' = "dryRun\<lparr>deactivations :=
                 [[Instance 0, Instance 3], [Instance 0, Instance 2], [Instance 0, Instance 4],
                  [Instance 0, Instance 1]]\<rparr>"]
  from t1 pm w have c1: "deactivations (nestedDryRun\<lparr>deactivations := ?paths\<rparr>)
     = deactivations nestedDryRun @
       pathsOf (removedBelow ?env (rootNode teamOtherUserTree)
                  (Some (rootNode teamUserTree)) (Some (routerOutletMap nestedRouter))
                  [Instance 0])"
    by blast
  from t2 pm' r have c2: "deactivations (dryRun\<lparr>deactivations :=
          [[Instance 0, Instance 3], [Instance 0, Instance 2], [Instance 0, Instance 4],
           [Instance 0, Instance 1]]\<rparr>)
     = deactivations dryRun @ map (\<lambda>c. [Instance 0] @ [c]) (mounted nestedOutlet)"
    by blast
  have i: "[Instance 0, Instance 1, Instance 3]
     \<in> set (pathsOf (removedBelow ?env (rootNode teamOtherUserTree)
                        (Some (rootNode teamUserTree)) (Some (routerOutletMap nestedRouter))
                        [Instance 0]))"
    unfolding b by simp
  from t1 i have c3: "\<exists>ext x. [Instance 0, Instance 1, Instance 3] = [Instance 0] @ ext @ [x]"
    by blast
  from pm w b c1 pm' r m c2 i c3 show ?thesis by (intro conjI)
qed

section \<open>Navigation\<close>

lemma recognition_failure:
  "recognize env (rootComponentType r) url = Rejected e \<Longrightarrow>
     Router_navigate env r url = (Rejected e, r\<lparr>priv_urlTree := url\<rparr>)"
  by (simp add: Router_navigate_def)

text \<open>
  C5: when recognition fails the navigation is rejected with that failure and neither the
  route tree nor the outlets nor the log change, but the url tree of the router is already
  the candidate: navigating the team router to an address that matches nothing leaves
  \<open>urlTree\<close> at that address.
\<close>

theorem failed_recognition_replaces_url_tree:
  "navigateByUrl (exampleEnv noGuards) teamRouter ''nowhere''
     = (Rejected (Failure ''no match''), teamRouter\<lparr>priv_urlTree := urlOf ''nowhere''\<rparr>) \<and>
   urlTree teamRouter = urlOf ''team'' \<and>
   urlTree (snd (navigateByUrl (exampleEnv noGuards) teamRouter ''nowhere'')) = urlOf ''nowhere'' \<and>
   urlOf ''nowhere'' \<noteq> urlOf ''team''"
proof -
  have r: "navigateByUrl (exampleEnv noGuards) teamRouter ''nowhere''
     = (Rejected (Failure ''no match''), teamRouter\<lparr>priv_urlTree := urlOf ''nowhere''\<rparr>)"
    by (simp add: navigateByUrl_def Router_navigate_def exampleEnv_def urlOf_def)
  show ?thesis unfolding r by (simp add: urlTree_def teamRouter_def urlOf_def)
qed

text \<open>
  C2: a guard resolving false does not always block the commit. In the team router the guard
  of the mounted team component resolves false and the guard of the root component resolves
  true; navigating to the user address then unmounts the team component, mounts the user
  component and replaces the accepted route tree.
\<close>

theorem overridden_veto_does_not_block_commit:
  "routerCanDeactivate (exampleEnv innerVetoes) (Instance 1) (Some teamTree) userTree
     = Resolved False \<and>
   navigateByUrl (exampleEnv innerVetoes) teamRouter ''user''
     = (Resolved (),
        teamRouter\<lparr>priv_prevTree := userTree, priv_urlTree := urlOf ''user'',
          routerOutletMap := [(''primary'', RouterOutlet (Instance 2) (Some []))],
          effects := [RouterCanDeactivate 0 (Instance 1), RouterCanDeactivate 0 (Instance 0),
             OutletUnload (Instance 1), OutletLoad (mkSegment ''user'' ''primary'' 2) (Instance 2),
             LocationGo ''user'', ChangesEmit]\<rparr>) \<and>
   routeTree teamRouter = teamTree \<and> teamTree \<noteq> userTree"
proof -
  have g: "routerCanDeactivate (exampleEnv innerVetoes) (Instance 1) (Some teamTree) userTree
     = Resolved False"
    by (simp add: exampleEnv_def innerVetoes_def)
  have n: "navigateByUrl (exampleEnv innerVetoes) teamRouter ''user''
     = (Resolved (),
        teamRouter\<lparr>priv_prevTree := userTree, priv_urlTree := urlOf ''user'',
          routerOutletMap := [(''primary'', RouterOutlet (Instance 2) (Some []))],
          effects := [RouterCanDeactivate 0 (Instance 1), RouterCanDeactivate 0 (Instance 0),
             OutletUnload (Instance 1), OutletLoad (mkSegment ''user'' ''primary'' 2) (Instance 2),
             LocationGo ''user'', ChangesEmit]\<rparr>)"
    by (simp add: navigateByUrl_def Router_navigate_def exampleEnv_def urlOf_def teamRouter_def
          load_def canDeactivate_def new_LoadSegments_def userTree_def teamTree_def mkSegment_def
          prevChildrenOf_def getOutlet_def checkCanDeactivatePath_def guardStep_def
          innerVetoes_def guardEvents_def loadNewSegment_def loadSegments.simps
          unloadOutlet_def putOutlet_def registerOutlet_def)
  have t: "routeTree teamRouter = teamTree" "teamTree \<noteq> userTree"
    by (simp_all add: routeTree_def teamRouter_def teamTree_def userTree_def mkSegment_def)
  from g n t show ?thesis by (intro conjI)
qed

section \<open>A missing outlet\<close>

lemma getOutlet_missing:
  "map_of outlets (outlet seg) = None \<Longrightarrow>
     getOutlet env (Some outlets) seg =
       Inl (BaseException (if outlet seg = DEFAULT_OUTLET_NAME env
                           then ''Cannot find default outlet''
                           else ''Cannot find the outlet '' @ outlet seg))"
  by (simp add: getOutlet_def)

lemma loadSegments_missing:
  "map_of outlets (outlet (val c)) = None \<Longrightarrow>
     loadSegments env c prevNode (Some outlets) components s =
       (Some (BaseException (if outlet (val c) = DEFAULT_OUTLET_NAME env
                             then ''Cannot find default outlet''
                             else ''Cannot find the outlet '' @ outlet (val c))),
        Some outlets, s)"
  by (rule loadSegments_noOutlet) (rule getOutlet_missing)

lemma map_of_None_keys: "map_of al k = None \<longleftrightarrow> k \<notin> set (map fst al)"
  by (simp add: map_of_eq_None_iff)

lemma loadChildren_missing:
  "c \<in> set cs \<Longrightarrow> map_of outlets (outlet (val c)) = None \<Longrightarrow>
     \<exists>e pc' om' s'. loadChildren env cs pc (Some outlets) components s = (Some e, pc', om', s')"
proof (induction cs arbitrary: pc outlets s)
  case Nil
  then show ?case by simp
next
  case (Cons d cs)
  obtain e1 om1 s1
    where r: "loadSegments env d (map_of pc (outlet (val d))) (Some outlets) components s
                = (e1, om1, s1)"
    by (metis prod_cases3)
  show ?case
  proof (cases e1)
    case (Some x)
    with r show ?thesis by simp
  next
    case None
    have "c \<noteq> d"
    proof
      assume "c = d"
      with Cons(3) r None loadSegments_missing[of outlets d env "map_of pc (outlet (val d))" components s]
      show False by simp
    qed
    with Cons(2) have c: "c \<in> set cs" by simp
    from walk_inv(3)[OF r] have "map_option (map fst) om1 = Some (map fst outlets)"
      by (simp add: mapInv_def)
    then obtain outlets1 where o1: "om1 = Some outlets1" "map fst outlets1 = map fst outlets"
      by auto
    with Cons(3) have "map_of outlets1 (outlet (val c)) = None"
      by (simp add: map_of_None_keys)
    from Cons(1)[OF c this] r None o1 show ?thesis by simp
  qed
qed

lemma loadChildSegments_missing:
  assumes "c \<in> set (children currNode)" and "map_of outlets (outlet (val c)) = None"
  shows "\<exists>e om' s'. loadChildSegments env currNode prevNode (Some outlets) components s
                      = (Some e, om', s')"
proof -
  obtain v cs where n: "currNode = TreeNode v cs" by (cases currNode)
  with assms(1) have "c \<in> set cs" by simp
  from loadChildren_missing[OF this assms(2)]
  obtain e pc' om' s' where
    "loadChildren env cs (prevChildrenOf prevNode) (Some outlets) components s
       = (Some e, pc', om', s')"
    by blast
  with n show ?thesis by simp
qed

lemma canDeactivate_throws:
  "loadChildSegments env currRoot prevRoot om [root] (s\<lparr>performMutation := False\<rparr>)
     = (Some e, om', s') \<Longrightarrow>
   canDeactivate env s currRoot prevRoot om root = (Rejected e, om', s')"
  by (simp add: canDeactivate_def)

lemma load_throws:
  "canDeactivate env s (rootNode (currTree s)) (map_option rootNode (prevTree s)) om root
     = (Rejected e, om', s') \<Longrightarrow>
   load env s om root = (Rejected e, om', s')"
  by (simp add: load_def)

lemma navigate_throws:
  "recognize env (rootComponentType r) url = Resolved t \<Longrightarrow>
   load env (new_LoadSegments t (Some (priv_prevTree r))) (Some (routerOutletMap r))
     (rootComponent r) = (Rejected e, om', s') \<Longrightarrow>
   fst (Router_navigate env r url) = Rejected e"
  by (simp add: Router_navigate_def Let_def)

lemma loadChildren_append:
  "loadChildren env (pre @ rest) pc om comps s =
     (case loadChildren env pre pc om comps s of
        (Some e, pc1, om1, s1) \<Rightarrow> (Some e, pc1, om1, s1)
      | (None, pc1, om1, s1) \<Rightarrow> loadChildren env rest pc1 om1 comps s1)"
proof (induction pre arbitrary: pc om s)
  case Nil
  show ?case by simp
next
  case (Cons d pre)
  obtain e1 om1 s1
    where r: "loadSegments env d (map_of pc (outlet (val d))) om comps s = (e1, om1, s1)"
    by (metis prod_cases3)
  show ?case
    by (cases e1) (simp_all add: r Cons)
qed

lemma throw_propagates:
  "reaches env w l \<Longrightarrow> segmentError env l = Some e \<Longrightarrow> walkError env w = Some e"
proof (induction rule: reaches.induct)
  case (child n pre c post p om comps s pc om1 s1)
  obtain v where n: "n = TreeNode v (pre @ c # post)"
    using child(1) by (cases n) simp
  from child(3) obtain om2 s2 where
    t: "loadSegments env c (map_of pc (outlet (val c))) om1 comps s1 = (Some e, om2, s2)"
    by (cases "loadSegments env c (map_of pc (outlet (val c))) om1 comps s1")
       (auto simp: segmentError_def)
  have "loadChildren env (pre @ c # post) (prevChildrenOf p) om comps s = (Some e, pc, om2, s2)"
    by (simp add: loadChildren_append child(2) t)
  then show ?case by (simp add: walkError_def n)
next
  case (reused w d pd omd compsd sd out x)
  from reused(6)[OF reused(7)] obtain om2 s2 where
    t: "loadChildSegments env d pd (outletMap out) (compsd @ [loadedComponent out]) sd
          = (Some e, om2, s2)"
    by (cases "loadChildSegments env d pd (outletMap out) (compsd @ [loadedComponent out]) sd")
       (auto simp: walkError_def)
  from loadSegments_reuse[OF reused(2,3) t] have "segmentError env (d, pd, omd, compsd, sd) = Some e"
    by (simp add: segmentError_def)
  then show ?case by (rule reused(5))
next
  case (replaced w d pd omd compsd sd out out' s1 out2 s2 x)
  from replaced(9)[OF replaced(10)] obtain om3 s3 where
    t: "loadChildSegments env d pd (outletMap out2) (compsd @ [loadedComponent out2]) s2
          = (Some e, om3, s3)"
    by (cases "loadChildSegments env d pd (outletMap out2) (compsd @ [loadedComponent out2]) s2")
       (auto simp: walkError_def)
  from loadSegments_replace[OF replaced(2,3,4)] replaced(5,6) t
  have "segmentError env (d, pd, omd, compsd, sd) = Some e"
    by (simp add: segmentError_def)
  then show ?case by (rule replaced(8))
qed

lemma segment_missing:
  "map_of outlets (outlet (val c)) = None \<Longrightarrow>
     segmentError env (c, pc, Some outlets, comps, s) = Some (outletNotFound env (val c))"
  using loadSegments_missing[of outlets c env pc comps s]
  by (simp add: segmentError_def outletNotFound_def)

lemma navigate_dry_throw:
  assumes "recognize env (rootComponentType r) url = Resolved t"
    and "fst (loadChildSegments env (rootNode t) (Some (rootNode (priv_prevTree r)))
                (Some (routerOutletMap r)) [rootComponent r]
                ((new_LoadSegments t (Some (priv_prevTree r)))\<lparr>performMutation := False\<rparr>)) = Some e"
  shows "fst (Router_navigate env r url) = Rejected e"
proof -
  let ?s = "new_LoadSegments t (Some (priv_prevTree r))"
  from assms(2) obtain om' s' where
    "loadChildSegments env (rootNode t) (Some (rootNode (priv_prevTree r)))
       (Some (routerOutletMap r)) [rootComponent r] (?s\<lparr>performMutation := False\<rparr>) = (Some e, om', s')"
    by (metis prod.collapse)
  then have "canDeactivate env ?s (rootNode (currTree ?s)) (map_option rootNode (prevTree ?s))
               (Some (routerOutletMap r)) (rootComponent r) = (Rejected e, om', s')"
    by (intro canDeactivate_throws) (simp add: new_LoadSegments_def)
  then have "load env ?s (Some (routerOutletMap r)) (rootComponent r) = (Rejected e, om', s')"
    by (rule load_throws)
  with assms(1) show ?thesis using navigate_throws by blast
qed

lemma navigate_commit_throw:
  assumes "recognize env (rootComponentType r) url = Resolved t"
    and "canDeactivate env (new_LoadSegments t (Some (priv_prevTree r))) (rootNode t)
           (Some (rootNode (priv_prevTree r))) (Some (routerOutletMap r)) (rootComponent r)
           = (Resolved True, om1, s1)"
    and "fst (loadChildSegments env (rootNode t) (Some (rootNode (priv_prevTree r)))
                om1 [rootComponent r] (s1\<lparr>performMutation := True\<rparr>)) = Some e"
  shows "fst (Router_navigate env r url) = Rejected e"
proof -
  let ?s = "new_LoadSegments t (Some (priv_prevTree r))"
  from assms(3) obtain om' s' where
    w: "loadChildSegments env (rootNode t) (Some (rootNode (priv_prevTree r)))
       om1 [rootComponent r] (s1\<lparr>performMutation := True\<rparr>) = (Some e, om', s')"
    by (metis prod.collapse)
  have "load env ?s (Some (routerOutletMap r)) (rootComponent r) = (Rejected e, om', s')"
    using assms(2) w by (simp add: load_def new_LoadSegments_def)
  with assms(1) show ?thesis using navigate_throws by blast
qed

lemma reaches_first_child:
  "children n = c # post \<Longrightarrow>
     reaches env (n, p, om, comps, s)
       (c, map_of (prevChildrenOf p) (outlet (val c)), om, comps, s)"
  using reaches.child[of n "[]" c post env p om comps s "prevChildrenOf p" om s] by simp

lemma reaches_below_reused:
  "reaches (recognising noGuards teamChatTree)
     (rootNode teamChatTree, Some (rootNode teamTree), Some (routerOutletMap teamRouter),
      [Instance 0], teamChatDryRun)
     (chatNode, None, Some [], [Instance 0, Instance 1], teamChatDryRun)"
proof -
  let ?env = "recognising noGuards teamChatTree"
  let ?team = "TreeNode (mkSegment ''team'' ''primary'' 1) [chatNode]"
  let ?prev = "TreeNode (mkSegment ''team'' ''primary'' 1) []"
  have a: "reaches ?env
     (rootNode teamChatTree, Some (rootNode teamTree), Some (routerOutletMap teamRouter),
      [Instance 0], teamChatDryRun)
     (?team, Some ?prev, Some (routerOutletMap teamRouter), [Instance 0], teamChatDryRun)"
    using reaches_first_child[of "rootNode teamChatTree" ?team "[]" ?env
            "Some (rootNode teamTree)" "Some (routerOutletMap teamRouter)" "[Instance 0]"
            teamChatDryRun]
    by (simp add: deep_defs)
  have g: "getOutlet ?env (Some (routerOutletMap teamRouter)) (val ?team)
             = Inr (RouterOutlet (Instance 1) (Some []))"
    by (simp add: deep_defs)
  have e: "equalSegments ?env (val ?team) (map_option val (Some ?prev))"
    by (simp add: deep_defs)
  have b: "reaches ?env
     (?team, Some ?prev, outletMap (RouterOutlet (Instance 1) (Some [])),
      [Instance 0] @ [loadedComponent (RouterOutlet (Instance 1) (Some []))], teamChatDryRun)
     (chatNode, None, Some [], [Instance 0, Instance 1], teamChatDryRun)"
    using reaches_first_child[of ?team chatNode "[]" ?env "Some ?prev" "Some []"
            "[Instance 0, Instance 1]" teamChatDryRun]
    by (simp add: deep_defs)
  from a g e b show ?thesis by (rule reaches.reused)
qed

lemma reaches_below_replaced:
  "reaches (recognising noGuards userChatTree)
     (rootNode userChatTree, Some (rootNode teamTree), Some (routerOutletMap teamRouter),
      [Instance 0], deepCommit)
     (chatNode, None, Some [], [Instance 0, Instance 2], deepMounted)"
proof -
  let ?env = "recognising noGuards userChatTree"
  let ?user = "TreeNode (mkSegment ''user'' ''primary'' 2) [chatNode]"
  let ?prev = "TreeNode (mkSegment ''team'' ''primary'' 1) []"
  let ?new = "RouterOutlet (Instance 2) (Some [])"
  have a: "reaches ?env
     (rootNode userChatTree, Some (rootNode teamTree), Some (routerOutletMap teamRouter),
      [Instance 0], deepCommit)
     (?user, Some ?prev, Some (routerOutletMap teamRouter), [Instance 0], deepCommit)"
    using reaches_first_child[of "rootNode userChatTree" ?user "[]" ?env
            "Some (rootNode teamTree)" "Some (routerOutletMap teamRouter)" "[Instance 0]"
            deepCommit]
    by (simp add: deep_defs)
  have g: "getOutlet ?env (Some (routerOutletMap teamRouter)) (val ?user)
             = Inr (RouterOutlet (Instance 1) (Some []))"
    by (simp add: deep_defs)
  have e: "\<not> equalSegments ?env (val ?user) (map_option val (Some ?prev))"
    by (simp add: deep_defs)
  have u: "unloadOutlet (Some (RouterOutlet (Instance 1) (Some []))) [Instance 0] deepCommit
             = (None, Some (RouterOutlet Null (Some [])),
                deepCommit\<lparr>trace := [OutletUnload (Instance 1)]\<rparr>)"
    by (simp add: deep_defs)
  have pm: "performMutation (deepCommit\<lparr>trace := [OutletUnload (Instance 1)]\<rparr>)"
    by (simp add: deep_defs)
  have l: "loadNewSegment ?env (val ?user) (map_option val (Some ?prev))
             (Some (RouterOutlet Null (Some [])))
             (deepCommit\<lparr>trace := [OutletUnload (Instance 1)]\<rparr>) = (Inr ?new, deepMounted)"
    by (simp add: deep_defs)
  have b: "reaches ?env
     (?user, Some ?prev, outletMap ?new, [Instance 0] @ [loadedComponent ?new], deepMounted)
     (chatNode, None, Some [], [Instance 0, Instance 2], deepMounted)"
    using reaches_first_child[of ?user chatNode "[]" ?env "Some ?prev" "Some []"
            "[Instance 0, Instance 2]" deepMounted]
    by (simp add: deep_defs)
  from a g e u pm l b show ?thesis by (rule reaches.replaced)
qed

text \<open>
  C9: a candidate node whose outlet name is not registered in the registry of its parent is
  fatal. \<open>loadSegments\<close> throws the \<open>BaseException\<close> of \<open>getOutlet\<close> at that node and
  touches nothing; the loop over the children of its parent ends by an exception and never
  returns normally; nothing between that call and the walk that led to it catches the
  exception, at whatever depth the node lies and in either pass, so the walk ends with that
  very exception; and the promise of the navigation is rejected with it, neither resolved nor
  left pending, whether the walk that gets to the node is the first one (the node is a child
  of the root or lies below reused nodes) or the commit walk (the node lies below a node that
  is replaced, whose registry exists only once the new component is mounted).
\<close>

theorem missing_outlet_is_fatal:
  "(map_of outlets (outlet (val c)) = None \<longrightarrow>
      loadSegments env c prevNode (Some outlets) components s =
        (Some (outletNotFound env (val c)), Some outlets, s)) \<and>
   (c \<in> set (children currNode) \<and> map_of outlets (outlet (val c)) = None \<longrightarrow>
      (\<exists>e om' s'. loadChildSegments env currNode prevNode' (Some outlets) components s
                     = (Some e, om', s'))) \<and>
   (reaches env (n, p, om, comps, s0) (c, pc, Some outlets, compsc, sc) \<and>
    map_of outlets (outlet (val c)) = None \<longrightarrow>
      fst (loadChildSegments env n p om comps s0) = Some (outletNotFound env (val c))) \<and>
   (recognize env (rootComponentType r) url = Resolved t \<and> c \<in> set (children (rootNode t)) \<and>
    map_of (routerOutletMap r) (outlet (val c)) = None \<longrightarrow>
      (\<exists>e. fst (Router_navigate env r url) = Rejected e)) \<and>
   (recognize env (rootComponentType r) url = Resolved t \<and>
    reaches env
      (rootNode t, Some (rootNode (priv_prevTree r)), Some (routerOutletMap r), [rootComponent r],
       (new_LoadSegments t (Some (priv_prevTree r)))\<lparr>performMutation := False\<rparr>)
      (c, pc, Some outlets, compsc, sc) \<and>
    map_of outlets (outlet (val c)) = None \<longrightarrow>
      fst (Router_navigate env r url) = Rejected (outletNotFound env (val c))) \<and>
   (recognize env (rootComponentType r) url = Resolved t \<and>
    canDeactivate env (new_LoadSegments t (Some (priv_prevTree r))) (rootNode t)
      (Some (rootNode (priv_prevTree r))) (Some (routerOutletMap r)) (rootComponent r)
      = (Resolved True, om1, s1) \<and>
    reaches env
      (rootNode t, Some (rootNode (priv_prevTree r)), om1, [rootComponent r],
       s1\<lparr>performMutation := True\<rparr>)
      (c, pc, Some outlets, compsc, sc) \<and>
    map_of outlets (outlet (val c)) = None \<longrightarrow>
      fst (Router_navigate env r url) = Rejected (outletNotFound env (val c)))"
proof (intro conjI impI)
  assume "map_of outlets (outlet (val c)) = None"
  then show "loadSegments env c prevNode (Some outlets) components s =
        (Some (outletNotFound env (val c)), Some outlets, s)"
    using loadSegments_missing[of outlets c env prevNode components s]
    by (simp add: outletNotFound_def)
next
  assume "c \<in> set (children currNode) \<and> map_of outlets (outlet (val c)) = None"
  then show "\<exists>e om' s'. loadChildSegments env currNode prevNode' (Some outlets) components s
                     = (Some e, om', s')"
    using loadChildSegments_missing by blast
next
  assume a: "reaches env (n, p, om, comps, s0) (c, pc, Some outlets, compsc, sc) \<and>
    map_of outlets (outlet (val c)) = None"
  from a segment_missing
  have "segmentError env (c, pc, Some outlets, compsc, sc) = Some (outletNotFound env (val c))"
    by blast
  with a throw_propagates
  have "walkError env (n, p, om, comps, s0) = Some (outletNotFound env (val c))" by blast
  then show "fst (loadChildSegments env n p om comps s0) = Some (outletNotFound env (val c))"
    by (simp add: walkError_def)
next
  assume a: "recognize env (rootComponentType r) url = Resolved t \<and>
    c \<in> set (children (rootNode t)) \<and> map_of (routerOutletMap r) (outlet (val c)) = None"
  from a loadChildSegments_missing[of c "rootNode t" "routerOutletMap r" env
          "Some (rootNode (priv_prevTree r))" "[rootComponent r]"
          "(new_LoadSegments t (Some (priv_prevTree r)))\<lparr>performMutation := False\<rparr>"]
  obtain e where
    "fst (loadChildSegments env (rootNode t) (Some (rootNode (priv_prevTree r)))
       (Some (routerOutletMap r)) [rootComponent r]
       ((new_LoadSegments t (Some (priv_prevTree r)))\<lparr>performMutation := False\<rparr>)) = Some e"
    by auto
  with a navigate_dry_throw have "fst (Router_navigate env r url) = Rejected e" by blast
  then show "\<exists>e. fst (Router_navigate env r url) = Rejected e" ..
next
  assume a: "recognize env (rootComponentType r) url = Resolved t \<and>
    reaches env
      (rootNode t, Some (rootNode (priv_prevTree r)), Some (routerOutletMap r), [rootComponent r],
       (new_LoadSegments t (Some (priv_prevTree r)))\<lparr>performMutation := False\<rparr>)
      (c, pc, Some outlets, compsc, sc) \<and>
    map_of outlets (outlet (val c)) = None"
  from a segment_missing
  have "segmentError env (c, pc, Some outlets, compsc, sc) = Some (outletNotFound env (val c))"
    by blast
  with a throw_propagates
  have "walkError env (rootNode t, Some (rootNode (priv_prevTree r)), Some (routerOutletMap r),
          [rootComponent r],
          (new_LoadSegments t (Some (priv_prevTree r)))\<lparr>performMutation := False\<rparr>)
        = Some (outletNotFound env (val c))" by blast
  then have "fst (loadChildSegments env (rootNode t) (Some (rootNode (priv_prevTree r)))
       (Some (routerOutletMap r)) [rootComponent r]
       ((new_LoadSegments t (Some (priv_prevTree r)))\<lparr>performMutation := False\<rparr>))
       = Some (outletNotFound env (val c))"
    by (simp add: walkError_def)
  with a navigate_dry_throw
  show "fst (Router_navigate env r url) = Rejected (outletNotFound env (val c))" by blast
next
  assume a: "recognize env (rootComponentType r) url = Resolved t \<and>
    canDeactivate env (new_LoadSegments t (Some (priv_prevTree r))) (rootNode t)
      (Some (rootNode (priv_prevTree r))) (Some (routerOutletMap r)) (rootComponent r)
      = (Resolved True, om1, s1) \<and>
    reaches env
      (rootNode t, Some (rootNode (priv_prevTree r)), om1, [rootComponent r],
       s1\<lparr>performMutation := True\<rparr>)
      (c, pc, Some outlets, compsc, sc) \<and>
    map_of outlets (outlet (val c)) = None"
  from a segment_missing
  have "segmentError env (c, pc, Some outlets, compsc, sc) = Some (outletNotFound env (val c))"
    by blast
  with a throw_propagates
  have "walkError env (rootNode t, Some (rootNode (priv_prevTree r)), om1,
          [rootComponent r], s1\<lparr>performMutation := True\<rparr>)
        = Some (outletNotFound env (val c))" by blast
  then have "fst (loadChildSegments env (rootNode t) (Some (rootNode (priv_prevTree r)))
       om1 [rootComponent r] (s1\<lparr>performMutation := True\<rparr>))
       = Some (outletNotFound env (val c))"
    by (simp add: walkError_def)
  with a navigate_commit_throw
  show "fst (Router_navigate env r url) = Rejected (outletNotFound env (val c))" by blast
qed

theorem missing_outlet_is_fatal_witness:
  "recognize chatEnv (rootComponentType teamRouter) (urlOf ''chat'') = Resolved chatTree \<and>
   chatNode \<in> set (children (rootNode chatTree)) \<and>
   map_of (routerOutletMap teamRouter) (outlet (val chatNode)) = None \<and>
   loadSegments chatEnv chatNode None (Some (routerOutletMap teamRouter)) [Instance 0] dryRun
     = (Some (BaseException ''Cannot find the outlet aux''),
        Some (routerOutletMap teamRouter), dryRun) \<and>
   (\<exists>e om' s'. loadChildSegments chatEnv (rootNode chatTree) (Some (rootNode teamTree))
       (Some (routerOutletMap teamRouter)) [Instance 0] dryRun = (Some e, om', s')) \<and>
   (\<exists>e. fst (Router_navigate chatEnv teamRouter (urlOf ''chat'')) = Rejected e) \<and>
   recognize (recognising noGuards teamChatTree) (rootComponentType teamRouter)
       (urlOf ''team/chat'') = Resolved teamChatTree \<and>
   reaches (recognising noGuards teamChatTree)
     (rootNode teamChatTree, Some (rootNode teamTree), Some (routerOutletMap teamRouter),
      [Instance 0], teamChatDryRun)
     (chatNode, None, Some [], [Instance 0, Instance 1], teamChatDryRun) \<and>
   map_of [] (outlet (val chatNode)) = (None :: RouterOutlet option) \<and>
   fst (loadChildSegments (recognising noGuards teamChatTree) (rootNode teamChatTree)
          (Some (rootNode teamTree)) (Some (routerOutletMap teamRouter)) [Instance 0]
          teamChatDryRun)
     = Some (BaseException ''Cannot find the outlet aux'') \<and>
   fst (Router_navigate (recognising noGuards teamChatTree) teamRouter (urlOf ''team/chat''))
     = Rejected (BaseException ''Cannot find the outlet aux'') \<and>
   recognize (recognising noGuards userChatTree) (rootComponentType teamRouter)
       (urlOf ''user/chat'') = Resolved userChatTree \<and>
   canDeactivate (recognising noGuards userChatTree)
       (new_LoadSegments userChatTree (Some (priv_prevTree teamRouter))) (rootNode userChatTree)
       (Some (rootNode (priv_prevTree teamRouter))) (Some (routerOutletMap teamRouter))
       (rootComponent teamRouter)
     = (Resolved True, Some (routerOutletMap teamRouter),
        deepCommit\<lparr>performMutation := False\<rparr>) \<and>
   reaches (recognising noGuards userChatTree)
     (rootNode userChatTree, Some (rootNode teamTree), Some (routerOutletMap teamRouter),
      [Instance 0], deepCommit)
     (chatNode, None, Some [], [Instance 0, Instance 2], deepMounted) \<and>
   fst (Router_navigate (recognising noGuards userChatTree) teamRouter (urlOf ''user/chat''))
     = Rejected (BaseException ''Cannot find the outlet aux'') \<and>
   effects (snd (Router_navigate (recognising noGuards userChatTree) teamRouter
                   (urlOf ''user/chat'')))
     = [OutletUnload (Instance 1), OutletLoad (mkSegment ''user'' ''primary'' 2) (Instance 2)]"
proof -
  let ?envB = "recognising noGuards teamChatTree"
  let ?envC = "recognising noGuards userChatTree"
  have h1: "recognize chatEnv (rootComponentType teamRouter) (urlOf ''chat'') = Resolved chatTree"
    by (simp add: chatEnv_def)
  have h2: "chatNode \<in> set (children (rootNode chatTree))"
    by (simp add: chatTree_def chatNode_def)
  have h3: "map_of (routerOutletMap teamRouter) (outlet (val chatNode)) = None"
    by (simp add: teamRouter_def mkSegment_def chatNode_def)
  have h4: "map_of [] (outlet (val chatNode)) = (None :: RouterOutlet option)" by simp
  have d: "outletNotFound env (val chatNode) = BaseException ''Cannot find the outlet aux''"
    if "DEFAULT_OUTLET_NAME env = ''primary''" for env
    using that by (simp add: outletNotFound_def chatNode_def mkSegment_def)
  have dA: "outletNotFound chatEnv (val chatNode) = BaseException ''Cannot find the outlet aux''"
    by (rule d) (simp add: chatEnv_def exampleEnv_def)
  have dB: "outletNotFound ?envB (val chatNode) = BaseException ''Cannot find the outlet aux''"
    by (rule d) (simp add: recognising_def exampleEnv_def)
  have dC: "outletNotFound ?envC (val chatNode) = BaseException ''Cannot find the outlet aux''"
    by (rule d) (simp add: recognising_def exampleEnv_def)
  have pt: "priv_prevTree teamRouter = teamTree" "rootComponent teamRouter = Instance 0"
    by (simp_all add: teamRouter_def)
  have recB: "recognize ?envB (rootComponentType teamRouter) (urlOf ''team/chat'')
                = Resolved teamChatTree"
    by (simp add: recognising_def)
  have recC: "recognize ?envC (rootComponentType teamRouter) (urlOf ''user/chat'')
                = Resolved userChatTree"
    by (simp add: recognising_def)
  have rB: "reaches ?envB
     (rootNode teamChatTree, Some (rootNode (priv_prevTree teamRouter)),
      Some (routerOutletMap teamRouter), [rootComponent teamRouter],
      (new_LoadSegments teamChatTree (Some (priv_prevTree teamRouter)))
        \<lparr>performMutation := False\<rparr>)
     (chatNode, None, Some [], [Instance 0, Instance 1], teamChatDryRun)"
    using reaches_below_reused by (simp add: pt teamChatDryRun_def)
  have cd: "canDeactivate ?envC
       (new_LoadSegments userChatTree (Some (priv_prevTree teamRouter))) (rootNode userChatTree)
       (Some (rootNode (priv_prevTree teamRouter))) (Some (routerOutletMap teamRouter))
       (rootComponent teamRouter)
     = (Resolved True, Some (routerOutletMap teamRouter),
        deepCommit\<lparr>performMutation := False\<rparr>)"
    by (simp add: scenario_defs recognising_def userChatTree_def noGuards_def deepCommit_def)
  have eq: "(deepCommit\<lparr>performMutation := False\<rparr>)\<lparr>performMutation := True\<rparr> = deepCommit"
    by (simp add: deepCommit_def new_LoadSegments_def)
  have rC: "reaches ?envC
     (rootNode userChatTree, Some (rootNode (priv_prevTree teamRouter)),
      Some (routerOutletMap teamRouter), [rootComponent teamRouter],
      (deepCommit\<lparr>performMutation := False\<rparr>)\<lparr>performMutation := True\<rparr>)
     (chatNode, None, Some [], [Instance 0, Instance 2], deepMounted)"
    using reaches_below_replaced by (simp add: pt eq)
  note tA = missing_outlet_is_fatal[of "routerOutletMap teamRouter" chatNode chatEnv None
             "[Instance 0]" dryRun "rootNode chatTree" "Some (rootNode teamTree)"
             "rootNode chatTree" None None "[]" dryRun None "[]" dryRun
             teamRouter "urlOf ''chat''" chatTree None dryRun]
  note tB = missing_outlet_is_fatal[of "[]" chatNode ?envB None "[Instance 0]" teamChatDryRun
             "rootNode teamChatTree" "Some (rootNode teamTree)"
             "rootNode teamChatTree" "Some (rootNode teamTree)" "Some (routerOutletMap teamRouter)"
             "[Instance 0]" teamChatDryRun None "[Instance 0, Instance 1]" teamChatDryRun
             teamRouter "urlOf ''team/chat''" teamChatTree None teamChatDryRun]
  note tC = missing_outlet_is_fatal[of "[]" chatNode ?envC None "[Instance 0]" deepMounted
             "rootNode userChatTree" "Some (rootNode teamTree)"
             "rootNode userChatTree" "Some (rootNode teamTree)" "Some (routerOutletMap teamRouter)"
             "[Instance 0]" deepCommit None "[Instance 0, Instance 2]" deepMounted
             teamRouter "urlOf ''user/chat''" userChatTree "Some (routerOutletMap teamRouter)"
             "deepCommit\<lparr>performMutation := False\<rparr>"]
  from tA h3 dA have c1: "loadSegments chatEnv chatNode None
       (Some (routerOutletMap teamRouter)) [Instance 0] dryRun
     = (Some (BaseException ''Cannot find the outlet aux''),
        Some (routerOutletMap teamRouter), dryRun)"
    by simp
  from tA h2 h3 have c2: "\<exists>e om' s'. loadChildSegments chatEnv (rootNode chatTree)
       (Some (rootNode teamTree)) (Some (routerOutletMap teamRouter)) [Instance 0] dryRun
       = (Some e, om', s')"
    by blast
  from tA h1 h2 h3 have c3: "\<exists>e. fst (Router_navigate chatEnv teamRouter (urlOf ''chat'')) = Rejected e"
    by blast
  from tB reaches_below_reused h4 dB
  have c4: "fst (loadChildSegments ?envB (rootNode teamChatTree)
          (Some (rootNode teamTree)) (Some (routerOutletMap teamRouter)) [Instance 0]
          teamChatDryRun)
     = Some (BaseException ''Cannot find the outlet aux'')"
    by simp
  from tB recB rB h4 dB
  have c5: "fst (Router_navigate ?envB teamRouter (urlOf ''team/chat''))
     = Rejected (BaseException ''Cannot find the outlet aux'')"
    by simp
  from tC recC cd rC h4 dC
  have c6: "fst (Router_navigate ?envC teamRouter (urlOf ''user/chat''))
     = Rejected (BaseException ''Cannot find the outlet aux'')"
    by simp
  have c7: "effects (snd (Router_navigate ?envC teamRouter (urlOf ''user/chat'')))
     = [OutletUnload (Instance 1), OutletLoad (mkSegment ''user'' ''primary'' 2) (Instance 2)]"
    by (simp add: scenario_defs recognising_def userChatTree_def noGuards_def)
  from h1 h2 h3 c1 c2 c3 recB reaches_below_reused h4 c4 c5 recC cd reaches_below_replaced c6 c7
  show ?thesis by (intro conjI)
qed

text \<open>
  The slot of a node below a replaced node is looked up in the commit walk only. When the
  guard phase vetoes or stays pending, the new parent is never mounted, no registry of it
  comes to exist, and the navigation ends with the outcome of the guard phase.
\<close>

lemma slot_below_replaced_node_is_looked_up_at_commit:
  "Router_navigate (recognising teamVetoes userChatTree) teamRouter (urlOf ''user/chat'')
     = (Resolved (),
        teamRouter\<lparr>priv_urlTree := urlOf ''user/chat'',
                    effects := [RouterCanDeactivate 0 (Instance 1)]\<rparr>) \<and>
   Router_navigate (recognising teamPends userChatTree) teamRouter (urlOf ''user/chat'')
     = (Pending,
        teamRouter\<lparr>priv_urlTree := urlOf ''user/chat'',
                    effects := [RouterCanDeactivate 0 (Instance 1)]\<rparr>)"
  by (simp add: scenario_defs recognising_def userChatTree_def teamVetoes_def teamPends_def)

section \<open>Walking a tree against itself\<close>

lemma update_append:
  "k \<notin> set (map fst al) \<Longrightarrow> AList.update k v al = al @ [(k, v)]"
  by (induction al) auto

lemma prevChildren_distinct:
  "distinct (map (\<lambda>c. outlet (val c)) cs) \<Longrightarrow>
   set (map (\<lambda>c. outlet (val c)) cs) \<inter> set (map fst acc) = {} \<Longrightarrow>
   fold (\<lambda>c m. AList.update (outlet (val c)) c m) cs acc
     = acc @ map (\<lambda>c. (outlet (val c), c)) cs"
proof (induction cs arbitrary: acc)
  case Nil
  then show ?case by simp
next
  case (Cons c cs)
  from Cons(3) have "outlet (val c) \<notin> set (map fst acc)" by auto
  then have u: "AList.update (outlet (val c)) c acc = acc @ [(outlet (val c), c)]"
    by (rule update_append)
  from Cons(2) have d: "distinct (map (\<lambda>c. outlet (val c)) cs)" by simp
  from Cons(2,3)
  have "set (map (\<lambda>c. outlet (val c)) cs) \<inter> set (map fst (acc @ [(outlet (val c), c)])) = {}"
    by auto
  from Cons(1)[OF d this] u show ?case by simp
qed

lemma prevChildrenOf_distinct:
  "distinct (map (\<lambda>c. outlet (val c)) cs) \<Longrightarrow>
   prevChildrenOf (Some (TreeNode v cs)) = map (\<lambda>c. (outlet (val c), c)) cs"
  using prevChildren_distinct[of cs "[]"] by (simp add: prevChildrenOf_def)

lemma loadSegments_same:
  assumes eq: "equalSegments env (val c) (Some (val c))"
    and ih: "\<And>om comps s. snd (loadChildSegments env c (Some c) om comps s) = (om, s)"
  shows "snd (loadSegments env c (Some c) pom comps s) = (pom, s)"
proof (cases "getOutlet env pom (val c)")
  case (Inl x)
  then show ?thesis by (simp add: loadSegments_noOutlet)
next
  case (Inr out)
  then obtain m where m: "pom = Some m" "map_of m (outlet (val c)) = Some out"
    using getOutlet_Inr by blast
  obtain e1 om1 s1
    where r: "loadChildSegments env c (Some c) (outletMap out) (comps @ [loadedComponent out]) s
                = (e1, om1, s1)"
    by (metis prod_cases3)
  with ih[of "outletMap out" "comps @ [loadedComponent out]" s]
  have o: "om1 = outletMap out" "s1 = s" by simp_all
  from eq have eq': "equalSegments env (val c) (map_option val (Some c))" by simp
  from loadSegments_reuse[OF Inr eq' r] o m
  show ?thesis by (simp add: putOutlet_def update_same)
qed

lemma loadChildren_same:
  assumes "\<And>c pom comps s. c \<in> set cs \<Longrightarrow>
             snd (loadSegments env c (Some c) pom comps s) = (pom, s)"
    and "distinct (map (\<lambda>c. outlet (val c)) cs)"
  shows "\<exists>e pc'. loadChildren env cs (map (\<lambda>c. (outlet (val c), c)) cs) pom comps s
                    = (e, pc', pom, s) \<and> (e = None \<longrightarrow> pc' = [])"
  using assms
proof (induction cs)
  case Nil
  then show ?case by simp
next
  case (Cons c cs)
  let ?k = "outlet (val c)"
  let ?pc = "map (\<lambda>c. (outlet (val c), c)) (c # cs)"
  have look: "map_of ?pc ?k = Some c" by simp
  obtain e1 where r: "loadSegments env c (Some c) pom comps s = (e1, pom, s)"
    using Cons(2)[of c pom comps s] by (cases "loadSegments env c (Some c) pom comps s") auto
  show ?case
  proof (cases e1)
    case (Some x)
    with r look show ?thesis by simp
  next
    case None
    from Cons(3) have "?k \<notin> set (map fst (map (\<lambda>c. (outlet (val c), c)) cs))"
      by (auto simp: comp_def)
    then have del: "AList.delete ?k ?pc = map (\<lambda>c. (outlet (val c), c)) cs"
      by (simp add: AList.delete_eq) (induction cs; auto)
    from Cons(3) have d: "distinct (map (\<lambda>c. outlet (val c)) cs)" by simp
    from Cons(1)[OF _ d] Cons(2)
    obtain e pc' where
      "loadChildren env cs (map (\<lambda>c. (outlet (val c), c)) cs) pom comps s = (e, pc', pom, s)"
      "e = None \<longrightarrow> pc' = []"
      by auto
    with r None look del show ?thesis by simp
  qed
qed

lemma loadChildSegments_same:
  assumes refl: "\<forall>seg. equalSegments env seg (Some seg)"
  shows "distinctOutlets n \<Longrightarrow> snd (loadChildSegments env n (Some n) om comps s) = (om, s)"
proof (induction n arbitrary: om comps s)
  case (TreeNode v cs)
  have seg: "\<And>c pom comps s. c \<in> set cs \<Longrightarrow>
               snd (loadSegments env c (Some c) pom comps s) = (pom, s)"
  proof -
    fix c pom comps s
    assume c: "c \<in> set cs"
    with TreeNode(2) have "distinctOutlets c" by simp
    with TreeNode(1)[OF c]
    have "\<And>om comps s. snd (loadChildSegments env c (Some c) om comps s) = (om, s)" by simp
    with refl show "snd (loadSegments env c (Some c) pom comps s) = (pom, s)"
      by (intro loadSegments_same) auto
  qed
  from TreeNode(2) have d: "distinct (map (\<lambda>c. outlet (val c)) cs)" by simp
  from loadChildren_same[OF seg d, of om comps s]
  obtain e pc' where
    r: "loadChildren env cs (map (\<lambda>c. (outlet (val c), c)) cs) om comps s = (e, pc', om, s)"
    and e: "e = None \<longrightarrow> pc' = []"
    by auto
  show ?case
    using r e by (cases e) (simp_all add: prevChildrenOf_distinct[OF d])
qed

lemma same_walk:
  assumes "\<forall>seg. equalSegments env seg (Some seg)" and "distinctOutlets n"
  shows "\<exists>e. loadChildSegments env n (Some n) om comps s = (e, om, s)"
  using loadChildSegments_same[OF assms, of om comps s]
  by (cases "loadChildSegments env n (Some n) om comps s") simp

section \<open>The two phases of a reconciliation\<close>

lemma guardEvents_all: "list_all isGuardCall (guardEvents results)"
  by (auto simp: guardEvents_def list_all_iff isGuardCall_def)

lemma PromiseWrapper_all_Resolved:
  "PromiseWrapper_all ps = Resolved vs \<Longrightarrow> ps = map Resolved vs"
  by (induction ps arbitrary: vs) (auto split: promise.splits)

lemma filter_all: "length (filter P xs) = length xs \<Longrightarrow> \<forall>x \<in> set xs. P x"
  by (metis filter_id_conv length_filter_less less_irrefl order.not_eq_order_implies_strict length_filter_le)

lemma checkCanDeactivatePath_trees:
  "currTree s' = currTree s \<Longrightarrow> prevTree s' = prevTree s \<Longrightarrow>
     checkCanDeactivatePath env s' path = checkCanDeactivatePath env s path"
proof -
  assume "currTree s' = currTree s" "prevTree s' = prevTree s"
  then have "guardStep env s' = guardStep env s"
    by (intro ext) (simp add: guardStep_def split: promise.splits)
  then show ?thesis by (simp add: checkCanDeactivatePath_def)
qed

lemma dry_walk:
  assumes "loadChildSegments env n p om comps (s\<lparr>performMutation := False\<rparr>) = (e, om1, s1)"
  shows "om1 = om" "trace s1 = trace s" "currTree s1 = currTree s" "prevTree s1 = prevTree s"
    "performMutation s1 = False"
  using walk_inv(1)[OF assms] by (simp_all add: stateInv_def mapInv_def)

lemma canDeactivate_inv:
  assumes "canDeactivate env s currRoot prevRoot om root = (q, om1, s1)"
  shows "om1 = om" "extendsBy isGuardCall (trace s) (trace s1)"
    "currTree s1 = currTree s" "prevTree s1 = prevTree s"
    "q = Resolved True \<Longrightarrow>
       \<forall>path \<in> set (deactivations s1). fst (checkCanDeactivatePath env s1 path) = Resolved True"
proof -
  obtain e om2 s2 where
    w: "loadChildSegments env currRoot prevRoot om [root] (s\<lparr>performMutation := False\<rparr>)
          = (e, om2, s2)"
    by (metis prod_cases3)
  note d = dry_walk[OF w]
  let ?results = "map (checkCanDeactivatePath env s2) (deactivations s2)"
  have c: "(e \<noteq> None \<and> s1 = s2 \<and> om1 = om2) \<or>
           (e = None \<and> om1 = om2 \<and> s1 = s2\<lparr>trace := trace s2 @ guardEvents ?results\<rparr> \<and>
            q = (case PromiseWrapper_all (map fst ?results) of
                   Resolved values \<Rightarrow> Resolved (length (filter (\<lambda>v. v) values) = length values)
                 | Rejected e \<Rightarrow> Rejected e | Pending \<Rightarrow> Pending))"
    using assms w by (cases e) (auto simp: canDeactivate_def Let_def)
  from c d show "om1 = om" by auto
  from c d show "currTree s1 = currTree s" by auto
  from c d show "prevTree s1 = prevTree s" by auto
  from c d show "extendsBy isGuardCall (trace s) (trace s1)"
    by (auto simp: extendsBy_refl intro!: extendsBy_append guardEvents_all)
  show "\<forall>path \<in> set (deactivations s1). fst (checkCanDeactivatePath env s1 path) = Resolved True"
    if q: "q = Resolved True"
  proof -
    from c show ?thesis
    proof
      assume "e \<noteq> None \<and> s1 = s2 \<and> om1 = om2"
      with assms w q show ?thesis by (auto simp: canDeactivate_def)
    next
      assume a: "e = None \<and> om1 = om2 \<and> s1 = s2\<lparr>trace := trace s2 @ guardEvents ?results\<rparr> \<and>
            q = (case PromiseWrapper_all (map fst ?results) of
                   Resolved values \<Rightarrow> Resolved (length (filter (\<lambda>v. v) values) = length values)
                 | Rejected e \<Rightarrow> Rejected e | Pending \<Rightarrow> Pending)"
      with q obtain vals where
        v: "PromiseWrapper_all (map fst ?results) = Resolved vals"
           "length (filter (\<lambda>v. v) vals) = length vals"
        by (auto split: promise.splits)
      from v(2) have t: "\<forall>x \<in> set vals. x" by (rule filter_all)
      from PromiseWrapper_all_Resolved[OF v(1)]
      have m: "map fst ?results = map Resolved vals" .
      have same: "checkCanDeactivatePath env s1 = checkCanDeactivatePath env s2"
        using a by (intro ext checkCanDeactivatePath_trees) simp_all
      have ds: "deactivations s1 = deactivations s2" using a by simp
      show ?thesis
      proof
        fix path assume "path \<in> set (deactivations s1)"
        with ds have "fst (checkCanDeactivatePath env s2 path) \<in> set (map fst ?results)"
          by auto
        with m t have "fst (checkCanDeactivatePath env s2 path) = Resolved True" by auto
        with same show "fst (checkCanDeactivatePath env s1 path) = Resolved True" by simp
      qed
    qed
  qed
qed

lemma load_cases:
  assumes c: "canDeactivate env s (rootNode (currTree s)) (map_option rootNode (prevTree s)) om root
                = (q, om1, s1)"
    and l: "load env s om root = (p, om', s')"
  shows "(q = Resolved True \<and>
          (\<exists>e. loadChildSegments env (rootNode (currTree s)) (map_option rootNode (prevTree s))
                  om1 [root] (s1\<lparr>performMutation := True\<rparr>) = (e, om', s') \<and>
                p = (case e of Some x \<Rightarrow> Rejected x | None \<Rightarrow> Resolved True))) \<or>
         (q = Resolved False \<and> p = q \<and> om' = om1 \<and> s' = s1\<lparr>performMutation := True\<rparr>) \<or>
         ((\<forall>b. q \<noteq> Resolved b) \<and> p = q \<and> om' = om1 \<and> s' = s1)"
proof (cases q)
  case (Resolved res)
  show ?thesis
  proof (cases res)
    case True
    obtain e om2 s2 where
      w: "loadChildSegments env (rootNode (currTree s)) (map_option rootNode (prevTree s))
            om1 [root] (s1\<lparr>performMutation := True\<rparr>) = (e, om2, s2)"
      by (metis prod_cases3)
    with c l Resolved True show ?thesis
      by (cases e) (auto simp: load_def Let_def)
  next
    case False
    with c l Resolved show ?thesis by (auto simp: load_def Let_def)
  qed
next
  case (Rejected x)
  with c l show ?thesis by (auto simp: load_def Let_def)
next
  case Pending
  with c l show ?thesis by (auto simp: load_def Let_def)
qed

text \<open>
  C8: the guard checks of a reconciliation come before any mutation. The first walk and the
  guard phase (\<open>canDeactivate\<close>) leave the registry as it is and add nothing but guard
  calls to the log; everything that \<open>load\<close> adds after them is a mount or an unmount, never
  a guard call; unless the guard phase resolved true, nothing is added and the registry stays
  untouched; and when it resolved true, the chain of every collected path has resolved true.
\<close>

theorem guards_before_mutations:
  assumes c: "canDeactivate env s (rootNode (currTree s)) (map_option rootNode (prevTree s)) om root
                = (q, om1, s1)"
    and l: "load env s om root = (p, om', s')"
  shows "om1 = om \<and>
         (\<exists>guards. trace s1 = trace s @ guards \<and> list_all isGuardCall guards) \<and>
         (\<exists>commit. trace s' = trace s1 @ commit \<and> list_all isMutation commit) \<and>
         (q \<noteq> Resolved True \<longrightarrow> trace s' = trace s1 \<and> om' = om) \<and>
         (q = Resolved True \<longrightarrow>
            (\<forall>path \<in> set (deactivations s1).
                fst (checkCanDeactivatePath env s1 path) = Resolved True))"
proof -
  note ci = canDeactivate_inv[OF c]
  have a: "om1 = om" by (rule ci(1))
  have b: "\<exists>guards. trace s1 = trace s @ guards \<and> list_all isGuardCall guards"
    using ci(2) by (simp add: extendsBy_iff)
  from load_cases[OF c l]
  have d: "extendsBy isMutation (trace s1) (trace s') \<and>
           (q \<noteq> Resolved True \<longrightarrow> trace s' = trace s1 \<and> om' = om1)"
  proof (elim disjE conjE exE)
    fix e
    assume q: "q = Resolved True"
      and w: "loadChildSegments env (rootNode (currTree s)) (map_option rootNode (prevTree s))
                om1 [root] (s1\<lparr>performMutation := True\<rparr>) = (e, om', s')"
    from walk_inv(1)[OF w] have "extendsBy isMutation (trace s1) (trace s')"
      by (simp add: stateInv_def)
    with q show ?thesis by simp
  next
    assume "q = Resolved False" "s' = s1\<lparr>performMutation := True\<rparr>" "om' = om1"
    then show ?thesis by (simp add: extendsBy_refl)
  next
    assume "\<forall>b. q \<noteq> Resolved b" "s' = s1" "om' = om1"
    then show ?thesis by (simp add: extendsBy_refl)
  qed
  then have e: "\<exists>commit. trace s' = trace s1 @ commit \<and> list_all isMutation commit"
    by (simp add: extendsBy_iff)
  from a b d e ci(5) show ?thesis by blast
qed

theorem guards_before_mutations_witness:
  "canDeactivate (exampleEnv allConsent) userDryRun (rootNode (currTree userDryRun))
      (map_option rootNode (prevTree userDryRun)) (Some (routerOutletMap teamRouter)) (Instance 0)
     = (Resolved True, Some (routerOutletMap teamRouter),
        userDryRun\<lparr>deactivations := [[Instance 0, Instance 1]], performMutation := False,
          trace := [RouterCanDeactivate 0 (Instance 1), RouterCanDeactivate 0 (Instance 0)]\<rparr>) \<and>
   load (exampleEnv allConsent) userDryRun (Some (routerOutletMap teamRouter)) (Instance 0)
     = (Resolved True, Some [(''primary'', RouterOutlet (Instance 2) (Some []))],
        userDryRun\<lparr>deactivations := [[Instance 0, Instance 1]], performMutation := True,
          trace := [RouterCanDeactivate 0 (Instance 1), RouterCanDeactivate 0 (Instance 0),
                    OutletUnload (Instance 1),
                    OutletLoad (mkSegment ''user'' ''primary'' 2) (Instance 2)]\<rparr>) \<and>
   fst (checkCanDeactivatePath (exampleEnv allConsent)
          (userDryRun\<lparr>deactivations := [[Instance 0, Instance 1]], performMutation := False,
             trace := [RouterCanDeactivate 0 (Instance 1), RouterCanDeactivate 0 (Instance 0)]\<rparr>)
          [Instance 0, Instance 1]) = Resolved True"
proof -
  let ?s1 = "userDryRun\<lparr>deactivations := [[Instance 0, Instance 1]], performMutation := False,
          trace := [RouterCanDeactivate 0 (Instance 1), RouterCanDeactivate 0 (Instance 0)]\<rparr>"
  have c: "canDeactivate (exampleEnv allConsent) userDryRun (rootNode (currTree userDryRun))
      (map_option rootNode (prevTree userDryRun)) (Some (routerOutletMap teamRouter)) (Instance 0)
     = (Resolved True, Some (routerOutletMap teamRouter), ?s1)"
    by (simp add: scenario_defs userDryRun_def allConsent_def)
  have l: "load (exampleEnv allConsent) userDryRun (Some (routerOutletMap teamRouter)) (Instance 0)
     = (Resolved True, Some [(''primary'', RouterOutlet (Instance 2) (Some []))],
        userDryRun\<lparr>deactivations := [[Instance 0, Instance 1]], performMutation := True,
          trace := [RouterCanDeactivate 0 (Instance 1), RouterCanDeactivate 0 (Instance 0),
                    OutletUnload (Instance 1),
                    OutletLoad (mkSegment ''user'' ''primary'' 2) (Instance 2)]\<rparr>)"
    by (simp add: scenario_defs userDryRun_def allConsent_def)
  have "[Instance 0, Instance 1] \<in> set (deactivations ?s1)" by simp
  with guards_before_mutations[OF c l]
  have "fst (checkCanDeactivatePath (exampleEnv allConsent) ?s1 [Instance 0, Instance 1])
          = Resolved True"
    by blast
  with c l show ?thesis by (intro conjI)
qed

section \<open>Outcomes of a navigation\<close>

lemma isResolved_iff: "isResolved p \<longleftrightarrow> (\<exists>v. p = Resolved v)"
  by (cases p) (simp_all add: isResolved_def)

lemma chain_resolved:
  "fst (fold (guardStep env s) ps (Resolved x, calls)) = Resolved b \<Longrightarrow>
     (case filter (hasLifecycleHook env ''routerCanDeactivate'') (rev ps) of
        [] \<Rightarrow> b = x
      | g # rest \<Rightarrow> routerCanDeactivate env g (prevTree s) (currTree s) = Resolved b) \<and>
     list_all (\<lambda>p. isResolved (routerCanDeactivate env p (prevTree s) (currTree s)))
       (filter (hasLifecycleHook env ''routerCanDeactivate'') ps)"
proof (induction ps arbitrary: b rule: rev_induct)
  case Nil
  then show ?case by simp
next
  case (snoc p ps)
  let ?acc = "fold (guardStep env s) ps (Resolved x, calls)"
  from snoc(2) have f: "fst (guardStep env s p ?acc) = Resolved b" by simp
  then obtain b' where b': "fst ?acc = Resolved b'"
    by (cases "fst ?acc") (auto simp: guardStep_def)
  note ih = snoc(1)[OF b']
  show ?case
  proof (cases "hasLifecycleHook env ''routerCanDeactivate'' p")
    case True
    with f b' have "routerCanDeactivate env p (prevTree s) (currTree s) = Resolved b"
      by (simp add: guardStep_resolved)
    with True ih show ?thesis by (simp add: isResolved_def)
  next
    case False
    with f b' have "b' = b" by (simp add: guardStep_resolved)
    with False ih show ?thesis by (auto split: list.splits)
  qed
qed

lemma chain_true_consents:
  assumes "fst (checkCanDeactivatePath env s path) = Resolved True"
    and "g \<in> set path" and "hasLifecycleHook env ''routerCanDeactivate'' g"
  shows "lastGuardConsents env (prevTree s) (currTree s) path"
proof -
  let ?hook = "hasLifecycleHook env ''routerCanDeactivate''"
  from chain_resolved[of env s "rev path" True "[]" True] assms(1)
  have c: "(case filter ?hook path of [] \<Rightarrow> True
            | g # rest \<Rightarrow> routerCanDeactivate env g (prevTree s) (currTree s) = Resolved True)"
    and a: "list_all (\<lambda>p. isResolved (routerCanDeactivate env p (prevTree s) (currTree s)))
              (filter ?hook (rev path))"
    by (auto simp: checkCanDeactivatePath_def split: list.splits)
  from assms(2,3) have "g \<in> set (filter ?hook path)" by simp
  then obtain g0 rest where f: "filter ?hook path = g0 # rest" by (cases "filter ?hook path") auto
  from a have "\<forall>p \<in> set (filter ?hook path).
                 isResolved (routerCanDeactivate env p (prevTree s) (currTree s))"
    by (simp add: list_all_iff)
  with f have "list_all (\<lambda>p. isResolved (routerCanDeactivate env p (prevTree s) (currTree s))) rest"
    by (simp add: list_all_iff)
  with c f show ?thesis by (simp add: lastGuardConsents_def)
qed

lemma chain_resolves_iff:
  "isResolved (fst (checkCanDeactivatePath env s path))
     \<longleftrightarrow> guardsResolve env (prevTree s) (currTree s) path"
proof
  assume "isResolved (fst (checkCanDeactivatePath env s path))"
  then obtain b where "fst (checkCanDeactivatePath env s path) = Resolved b"
    by (auto simp: isResolved_iff)
  from chain_resolved[of env s "rev path" True "[]" b] this
  have "list_all (\<lambda>p. isResolved (routerCanDeactivate env p (prevTree s) (currTree s)))
              (filter (hasLifecycleHook env ''routerCanDeactivate'') (rev path))"
    by (simp add: checkCanDeactivatePath_def)
  then show "guardsResolve env (prevTree s) (currTree s) path"
    by (simp add: guardsResolve_def list_all_iff)
next
  assume "guardsResolve env (prevTree s) (currTree s) path"
  then have "\<forall>p \<in> set (rev path). hasLifecycleHook env ''routerCanDeactivate'' p \<longrightarrow>
      (\<exists>b. routerCanDeactivate env p (prevTree s) (currTree s) = Resolved b)"
    by (auto simp: guardsResolve_def list_all_iff isResolved_iff)
  from guard_chain_resolves[OF this, of True "[]"]
  show "isResolved (fst (checkCanDeactivatePath env s path))"
    by (auto simp: checkCanDeactivatePath_def isResolved_iff)
qed

lemma PromiseWrapper_all_resolves_iff:
  "isResolved (PromiseWrapper_all ps) \<longleftrightarrow> list_all isResolved ps"
  by (induction ps) (auto simp: isResolved_def split: promise.splits)

lemma canDeactivate_resolved_iff:
  "isResolved (fst (canDeactivate env s currRoot prevRoot om root)) \<longleftrightarrow>
     fst (loadChildSegments env currRoot prevRoot om [root] (s\<lparr>performMutation := False\<rparr>)) = None \<and>
     list_all (guardsResolve env (prevTree s) (currTree s))
       (deactivations s @ pathsOf (removedBelow env currRoot prevRoot om [root]))"
proof -
  obtain e om2 s2 where
    w: "loadChildSegments env currRoot prevRoot om [root] (s\<lparr>performMutation := False\<rparr>)
          = (e, om2, s2)"
    by (metis prod_cases3)
  show ?thesis
  proof (cases e)
    case (Some x)
    with w show ?thesis by (simp add: canDeactivate_def isResolved_def)
  next
    case None
    note d = dry_walk[OF w]
    have "\<not> performMutation (s\<lparr>performMutation := False\<rparr>)" by simp
    from walk_paths(1)[OF this w[unfolded None]]
    have ds: "deactivations s2
                = deactivations s @ pathsOf (removedBelow env currRoot prevRoot om [root])"
      by simp
    let ?results = "map (checkCanDeactivatePath env s2) (deactivations s2)"
    have "isResolved (fst (canDeactivate env s currRoot prevRoot om root))
            \<longleftrightarrow> isResolved (PromiseWrapper_all (map fst ?results))"
      using w None by (simp add: canDeactivate_def Let_def isResolved_def split: promise.splits)
    also have "\<dots> \<longleftrightarrow> list_all (\<lambda>p. isResolved (fst (checkCanDeactivatePath env s2 p)))
                          (deactivations s2)"
      by (simp add: PromiseWrapper_all_resolves_iff list_all_iff)
    also have "\<dots> \<longleftrightarrow> list_all (guardsResolve env (prevTree s) (currTree s)) (deactivations s2)"
      by (simp add: chain_resolves_iff d)
    finally show ?thesis using w None ds by simp
  qed
qed

lemma standing_veto_blocks:
  assumes p: "outer @ g # inner \<in> set (pathsOf (removedBelow env currRoot prevRoot om [root]))"
    and g: "hasLifecycleHook env ''routerCanDeactivate'' g"
    and veto: "routerCanDeactivate env g (prevTree s) (currTree s) = Resolved False"
    and stands: "\<not> lastGuardConsents env (prevTree s) (currTree s) outer"
    and c: "canDeactivate env s currRoot prevRoot om root = (q, om1, s1)"
  shows "q \<noteq> Resolved True"
proof
  assume q: "q = Resolved True"
  let ?path = "outer @ g # inner"
  obtain e om2 s2 where
    w: "loadChildSegments env currRoot prevRoot om [root] (s\<lparr>performMutation := False\<rparr>)
          = (e, om2, s2)"
    by (metis prod_cases3)
  have e: "e = None"
  proof (cases e)
    case (Some x)
    with w c q show ?thesis by (simp add: canDeactivate_def)
  qed simp
  from canDeactivate_paths[OF w[unfolded e]] c
  have "deactivations s1
          = deactivations s @ pathsOf (removedBelow env currRoot prevRoot om [root])"
    by simp
  with p have "?path \<in> set (deactivations s1)" by simp
  with canDeactivate_inv(5)[OF c q]
  have "fst (checkCanDeactivatePath env s1 ?path) = Resolved True" by blast
  from chain_true_consents[OF this _ g]
  have "lastGuardConsents env (prevTree s1) (currTree s1) ?path" by simp
  with canDeactivate_inv(3,4)[OF c]
  have l: "lastGuardConsents env (prevTree s) (currTree s) ?path" by simp
  show False
  proof (cases "filter (hasLifecycleHook env ''routerCanDeactivate'') outer")
    case Nil
    with l g veto show False by (simp add: lastGuardConsents_def)
  next
    case (Cons g0 rest)
    with l g have "lastGuardConsents env (prevTree s) (currTree s) outer"
      by (simp add: lastGuardConsents_def)
    with stands show False by simp
  qed
qed

text \<open>
  C4, as stated, fails. In the team router the team component vetoes and no other component
  has a guard: the promise resolves with no value (its type is \<open>Promise<void>\<close>; the
  boolean of \<open>load\<close> is consumed by the callback), and the url tree read through the
  accessor is the candidate's. When the root component has a guard as well and consents, the
  veto of the team component is lost and the route tree changes. And when, in the nested
  router, the user component vetoes and the guard of the chat component fails, the promise
  is rejected.
\<close>

theorem vetoed_navigation_outcomes:
  "routerCanDeactivate (exampleEnv teamVetoes) (Instance 1) (Some teamTree) userTree
     = Resolved False \<and>
   navigateByUrl (exampleEnv teamVetoes) teamRouter ''user''
     = (Resolved (),
        teamRouter\<lparr>priv_urlTree := urlOf ''user'',
                    effects := [RouterCanDeactivate 0 (Instance 1)]\<rparr>) \<and>
   urlTree teamRouter = urlOf ''team'' \<and>
   urlTree (snd (navigateByUrl (exampleEnv teamVetoes) teamRouter ''user'')) = urlOf ''user'' \<and>
   urlOf ''user'' \<noteq> urlOf ''team'' \<and>
   routerCanDeactivate (exampleEnv innerVetoes) (Instance 1) (Some teamTree) userTree
     = Resolved False \<and>
   routeTree teamRouter = teamTree \<and>
   routeTree (snd (navigateByUrl (exampleEnv innerVetoes) teamRouter ''user'')) = userTree \<and>
   teamTree \<noteq> userTree \<and>
   routerCanDeactivate (recognising userVetoesChatFails teamOtherUserTree) (Instance 2)
       (Some teamUserTree) teamOtherUserTree
     = Resolved False \<and>
   Router_navigate (recognising userVetoesChatFails teamOtherUserTree) nestedRouter
       (urlOf ''team/user22'')
     = (Rejected (Failure ''guard failed''),
        nestedRouter\<lparr>priv_urlTree := urlOf ''team/user22'',
                      effects := [RouterCanDeactivate 1 (Instance 2),
                                  RouterCanDeactivate 2 (Instance 4)]\<rparr>)"
proof -
  have g1: "routerCanDeactivate (exampleEnv teamVetoes) (Instance 1) (Some teamTree) userTree
     = Resolved False"
    by (simp add: exampleEnv_def teamVetoes_def)
  have n1: "navigateByUrl (exampleEnv teamVetoes) teamRouter ''user''
     = (Resolved (),
        teamRouter\<lparr>priv_urlTree := urlOf ''user'',
                    effects := [RouterCanDeactivate 0 (Instance 1)]\<rparr>)"
    by (simp add: scenario_defs teamVetoes_def)
  have u1: "urlTree teamRouter = urlOf ''team''"
    "urlTree (snd (navigateByUrl (exampleEnv teamVetoes) teamRouter ''user'')) = urlOf ''user''"
    "urlOf ''user'' \<noteq> urlOf ''team''"
    unfolding n1 by (simp_all add: urlTree_def teamRouter_def urlOf_def)
  have g2: "routerCanDeactivate (exampleEnv innerVetoes) (Instance 1) (Some teamTree) userTree
     = Resolved False"
    by (simp add: exampleEnv_def innerVetoes_def)
  have n2: "routeTree (snd (navigateByUrl (exampleEnv innerVetoes) teamRouter ''user'')) = userTree"
    by (simp add: scenario_defs innerVetoes_def routeTree_def)
  have t2: "routeTree teamRouter = teamTree" "teamTree \<noteq> userTree"
    by (simp_all add: routeTree_def teamRouter_def teamTree_def userTree_def mkSegment_def)
  have g3: "routerCanDeactivate (recognising userVetoesChatFails teamOtherUserTree) (Instance 2)
       (Some teamUserTree) teamOtherUserTree = Resolved False"
    by (simp add: recognising_def exampleEnv_def userVetoesChatFails_def)
  have n3: "Router_navigate (recognising userVetoesChatFails teamOtherUserTree) nestedRouter
       (urlOf ''team/user22'')
     = (Rejected (Failure ''guard failed''),
        nestedRouter\<lparr>priv_urlTree := urlOf ''team/user22'',
                      effects := [RouterCanDeactivate 1 (Instance 2),
                                  RouterCanDeactivate 2 (Instance 4)]\<rparr>)"
    by (simp add: scenario_defs recognising_def nestedRouter_def nestedOutlet_def
          teamOtherUserTree_def teamUserTree_def userVetoesChatFails_def)
  from g1 n1 u1 g2 t2(1) n2 t2(2) g3 n3 show ?thesis by (intro conjI)
qed

text \<open>
  C4, amended: when the guard of a resource on a deactivation path of the navigation
  resolves false and the guards called after it on that path, those of the resources further
  out, do not override it (they would by all resolving with the last of them, the outermost,
  resolving true), the route tree and the registry of the router are unchanged and the only
  effects are guard calls: no mount, no unmount, no change of location, no change
  notification. The promise of the navigation then resolves, with no value, exactly when the
  first walk finds every outlet it looks up and every guard on the deactivation paths
  resolves; otherwise it is rejected or stays pending.
\<close>

theorem veto_leaves_route_tree_and_outlets:
  assumes rec: "recognize env (rootComponentType r) url = Resolved t"
    and path: "outer @ g # inner \<in> set (pathsOf (removedBelow env (rootNode t)
                   (Some (rootNode (priv_prevTree r))) (Some (routerOutletMap r))
                   [rootComponent r]))"
    and g: "hasLifecycleHook env ''routerCanDeactivate'' g"
    and veto: "routerCanDeactivate env g (Some (priv_prevTree r)) t = Resolved False"
    and stands: "\<not> lastGuardConsents env (Some (priv_prevTree r)) t outer"
  shows "routeTree (snd (Router_navigate env r url)) = routeTree r \<and>
         routerOutletMap (snd (Router_navigate env r url)) = routerOutletMap r \<and>
         (\<exists>guards. effects (snd (Router_navigate env r url)) = effects r @ guards \<and>
                    list_all isGuardCall guards) \<and>
         (fst (Router_navigate env r url) = Resolved () \<longleftrightarrow>
            fst (loadChildSegments env (rootNode t) (Some (rootNode (priv_prevTree r)))
                   (Some (routerOutletMap r)) [rootComponent r]
                   ((new_LoadSegments t (Some (priv_prevTree r)))\<lparr>performMutation := False\<rparr>))
              = None \<and>
            list_all (guardsResolve env (Some (priv_prevTree r)) t)
              (pathsOf (removedBelow env (rootNode t) (Some (rootNode (priv_prevTree r)))
                          (Some (routerOutletMap r)) [rootComponent r])))"
proof -
  let ?s = "new_LoadSegments t (Some (priv_prevTree r))"
  let ?nav = "Router_navigate env r url"
  have st: "prevTree ?s = Some (priv_prevTree r)" "currTree ?s = t" "deactivations ?s = []"
    "trace ?s = []"
    by (simp_all add: new_LoadSegments_def)
  obtain q om1 s1 where
    c: "canDeactivate env ?s (rootNode t) (Some (rootNode (priv_prevTree r)))
          (Some (routerOutletMap r)) (rootComponent r) = (q, om1, s1)"
    by (metis prod_cases3)
  then have c': "canDeactivate env ?s (rootNode (currTree ?s)) (map_option rootNode (prevTree ?s))
          (Some (routerOutletMap r)) (rootComponent r) = (q, om1, s1)"
    by (simp add: st)
  obtain p om' s' where l: "load env ?s (Some (routerOutletMap r)) (rootComponent r) = (p, om', s')"
    by (metis prod_cases3)
  from standing_veto_blocks[OF path g _ _ c] veto stands
  have q: "q \<noteq> Resolved True" by (simp add: st)
  from load_cases[OF c' l] q
  have res: "p = q" "om' = om1" "trace s' = trace s1" by auto
  note ci = canDeactivate_inv[OF c]
  from ci(2) obtain guards where
    gs: "trace s1 = guards" "list_all isGuardCall guards"
    by (auto simp: extendsBy_iff st)
  have nav: "?nav = (case q of Resolved b \<Rightarrow> Resolved () | Rejected e \<Rightarrow> Rejected e
                       | Pending \<Rightarrow> Pending,
                     r\<lparr>priv_urlTree := url, routerOutletMap := routerOutletMap r,
                        effects := effects r @ guards\<rparr>)"
    using rec l res ci(1) gs(1) q
    by (cases q) (auto simp: Router_navigate_def Let_def)
  have a: "routeTree (snd ?nav) = routeTree r" by (simp add: nav routeTree_def)
  have b: "routerOutletMap (snd ?nav) = routerOutletMap r" by (simp add: nav)
  have d: "\<exists>guards. effects (snd ?nav) = effects r @ guards \<and> list_all isGuardCall guards"
    using gs(2) by (auto simp: nav)
  have "fst ?nav = Resolved () \<longleftrightarrow> isResolved q"
    by (cases q) (simp_all add: nav isResolved_def)
  also have "\<dots> \<longleftrightarrow>
       fst (loadChildSegments env (rootNode t) (Some (rootNode (priv_prevTree r)))
              (Some (routerOutletMap r)) [rootComponent r] (?s\<lparr>performMutation := False\<rparr>)) = None \<and>
       list_all (guardsResolve env (Some (priv_prevTree r)) t)
         (pathsOf (removedBelow env (rootNode t) (Some (rootNode (priv_prevTree r)))
                     (Some (routerOutletMap r)) [rootComponent r]))"
    using canDeactivate_resolved_iff[of env ?s "rootNode t" "Some (rootNode (priv_prevTree r))"
            "Some (routerOutletMap r)" "rootComponent r"] c
    by (simp add: st)
  finally show ?thesis using a b d by blast
qed

theorem veto_leaves_route_tree_and_outlets_witness:
  "recognize (exampleEnv teamVetoes) (rootComponentType teamRouter) (urlOf ''user'')
     = Resolved userTree \<and>
   pathsOf (removedBelow (exampleEnv teamVetoes) (rootNode userTree)
              (Some (rootNode (priv_prevTree teamRouter))) (Some (routerOutletMap teamRouter))
              [rootComponent teamRouter])
     = [[Instance 0] @ Instance 1 # []] \<and>
   hasLifecycleHook (exampleEnv teamVetoes) ''routerCanDeactivate'' (Instance 1) \<and>
   routerCanDeactivate (exampleEnv teamVetoes) (Instance 1) (Some (priv_prevTree teamRouter))
       userTree = Resolved False \<and>
   \<not> lastGuardConsents (exampleEnv teamVetoes) (Some (priv_prevTree teamRouter)) userTree
       [Instance 0] \<and>
   routeTree (snd (Router_navigate (exampleEnv teamVetoes) teamRouter (urlOf ''user'')))
     = routeTree teamRouter \<and>
   routerOutletMap (snd (Router_navigate (exampleEnv teamVetoes) teamRouter (urlOf ''user'')))
     = routerOutletMap teamRouter \<and>
   effects (snd (Router_navigate (exampleEnv teamVetoes) teamRouter (urlOf ''user'')))
     = effects teamRouter @ [RouterCanDeactivate 0 (Instance 1)] \<and>
   fst (loadChildSegments (exampleEnv teamVetoes) (rootNode userTree)
          (Some (rootNode (priv_prevTree teamRouter))) (Some (routerOutletMap teamRouter))
          [rootComponent teamRouter]
          ((new_LoadSegments userTree (Some (priv_prevTree teamRouter)))
             \<lparr>performMutation := False\<rparr>)) = None \<and>
   guardsResolve (exampleEnv teamVetoes) (Some (priv_prevTree teamRouter)) userTree
     [Instance 0, Instance 1] \<and>
   fst (Router_navigate (exampleEnv teamVetoes) teamRouter (urlOf ''user'')) = Resolved () \<and>
   recognize (recognising userVetoesChatFails teamOtherUserTree) (rootComponentType nestedRouter)
       (urlOf ''team/user22'') = Resolved teamOtherUserTree \<and>
   pathsOf (removedBelow (recognising userVetoesChatFails teamOtherUserTree)
              (rootNode teamOtherUserTree) (Some (rootNode (priv_prevTree nestedRouter)))
              (Some (routerOutletMap nestedRouter)) [rootComponent nestedRouter])
     = [[Instance 0, Instance 1, Instance 3], [Instance 0, Instance 1] @ Instance 2 # [],
        [Instance 0, Instance 1, Instance 4]] \<and>
   hasLifecycleHook (recognising userVetoesChatFails teamOtherUserTree) ''routerCanDeactivate''
     (Instance 2) \<and>
   routerCanDeactivate (recognising userVetoesChatFails teamOtherUserTree) (Instance 2)
       (Some (priv_prevTree nestedRouter)) teamOtherUserTree = Resolved False \<and>
   \<not> lastGuardConsents (recognising userVetoesChatFails teamOtherUserTree)
       (Some (priv_prevTree nestedRouter)) teamOtherUserTree [Instance 0, Instance 1] \<and>
   routeTree (snd (Router_navigate (recognising userVetoesChatFails teamOtherUserTree)
                     nestedRouter (urlOf ''team/user22''))) = routeTree nestedRouter \<and>
   routerOutletMap (snd (Router_navigate (recognising userVetoesChatFails teamOtherUserTree)
                     nestedRouter (urlOf ''team/user22''))) = routerOutletMap nestedRouter \<and>
   \<not> guardsResolve (recognising userVetoesChatFails teamOtherUserTree)
       (Some (priv_prevTree nestedRouter)) teamOtherUserTree [Instance 0, Instance 1, Instance 4] \<and>
   fst (Router_navigate (recognising userVetoesChatFails teamOtherUserTree) nestedRouter
          (urlOf ''team/user22'')) \<noteq> Resolved ()"
proof -
  let ?e1 = "exampleEnv teamVetoes"
  let ?e2 = "recognising userVetoesChatFails teamOtherUserTree"
  let ?P1 = "pathsOf (removedBelow ?e1 (rootNode userTree)
              (Some (rootNode (priv_prevTree teamRouter))) (Some (routerOutletMap teamRouter))
              [rootComponent teamRouter])"
  let ?P2 = "pathsOf (removedBelow ?e2
              (rootNode teamOtherUserTree) (Some (rootNode (priv_prevTree nestedRouter)))
              (Some (routerOutletMap nestedRouter)) [rootComponent nestedRouter])"
  have rec1: "recognize ?e1 (rootComponentType teamRouter) (urlOf ''user'') = Resolved userTree"
    by (simp add: exampleEnv_def urlOf_def)
  have p1: "?P1 = [[Instance 0] @ Instance 1 # []]"
    by (simp add: removedAt.simps removedLeftover_def exampleEnv_def mkSegment_def
          prevChildrenOf_def getOutlet_def teamRouter_def teamTree_def userTree_def)
  have h1: "hasLifecycleHook ?e1 ''routerCanDeactivate'' (Instance 1)"
    by (simp add: exampleEnv_def teamVetoes_def)
  have v1: "routerCanDeactivate ?e1 (Instance 1) (Some (priv_prevTree teamRouter)) userTree
              = Resolved False"
    by (simp add: exampleEnv_def teamVetoes_def)
  have s1: "\<not> lastGuardConsents ?e1 (Some (priv_prevTree teamRouter)) userTree [Instance 0]"
    by (simp add: lastGuardConsents_def exampleEnv_def teamVetoes_def)
  have w1: "fst (loadChildSegments ?e1 (rootNode userTree)
          (Some (rootNode (priv_prevTree teamRouter))) (Some (routerOutletMap teamRouter))
          [rootComponent teamRouter]
          ((new_LoadSegments userTree (Some (priv_prevTree teamRouter)))
             \<lparr>performMutation := False\<rparr>)) = None"
    by (simp add: scenario_defs teamVetoes_def)
  have r1: "guardsResolve ?e1 (Some (priv_prevTree teamRouter)) userTree [Instance 0, Instance 1]"
    by (simp add: guardsResolve_def isResolved_def exampleEnv_def teamVetoes_def)
  have m1: "[Instance 0] @ Instance 1 # [] \<in> set ?P1" unfolding p1 by simp
  note t1 = veto_leaves_route_tree_and_outlets[OF rec1 m1 h1 v1 s1]
  have e1: "effects (snd (Router_navigate ?e1 teamRouter (urlOf ''user'')))
              = effects teamRouter @ [RouterCanDeactivate 0 (Instance 1)]"
    by (simp add: scenario_defs teamVetoes_def)
  from t1 w1 r1 p1 have c1: "fst (Router_navigate ?e1 teamRouter (urlOf ''user'')) = Resolved ()"
    by simp
  have rec2: "recognize ?e2 (rootComponentType nestedRouter) (urlOf ''team/user22'')
                = Resolved teamOtherUserTree"
    by (simp add: recognising_def)
  have p2: "?P2 = [[Instance 0, Instance 1, Instance 3], [Instance 0, Instance 1] @ Instance 2 # [],
                   [Instance 0, Instance 1, Instance 4]]"
    by (simp add: removedAt.simps removedLeftover_def recognising_def exampleEnv_def
          mkSegment_def prevChildrenOf_def getOutlet_def nestedRouter_def nestedOutlet_def
          teamOtherUserTree_def teamUserTree_def)
  have h2: "hasLifecycleHook ?e2 ''routerCanDeactivate'' (Instance 2)"
    by (simp add: recognising_def exampleEnv_def userVetoesChatFails_def)
  have v2: "routerCanDeactivate ?e2 (Instance 2) (Some (priv_prevTree nestedRouter))
              teamOtherUserTree = Resolved False"
    by (simp add: recognising_def exampleEnv_def userVetoesChatFails_def)
  have s2: "\<not> lastGuardConsents ?e2 (Some (priv_prevTree nestedRouter)) teamOtherUserTree
              [Instance 0, Instance 1]"
    by (simp add: lastGuardConsents_def recognising_def exampleEnv_def userVetoesChatFails_def)
  have r2: "\<not> guardsResolve ?e2 (Some (priv_prevTree nestedRouter)) teamOtherUserTree
              [Instance 0, Instance 1, Instance 4]"
    by (simp add: guardsResolve_def isResolved_def recognising_def exampleEnv_def
          userVetoesChatFails_def)
  have m2: "[Instance 0, Instance 1] @ Instance 2 # [] \<in> set ?P2" unfolding p2 by simp
  note t2 = veto_leaves_route_tree_and_outlets[OF rec2 m2 h2 v2 s2]
  from t2 r2 p2
  have c2: "fst (Router_navigate ?e2 nestedRouter (urlOf ''team/user22'')) \<noteq> Resolved ()"
    by simp
  from rec1 p1 h1 v1 s1 t1[THEN conjunct1] t1[THEN conjunct2, THEN conjunct1] e1 w1 r1 c1
       rec2 p2 h2 v2 s2 t2[THEN conjunct1] t2[THEN conjunct2, THEN conjunct1] r2 c2
  show ?thesis by (intro conjI)
qed

text \<open>
  C3, as stated, fails: navigating the team router to its own address resolves and emits a
  change notification (after pushing the location).
\<close>

theorem renavigation_emits_change:
  "serialize (exampleEnv noGuards) (urlTree teamRouter) = ''team'' \<and>
   recognize (exampleEnv noGuards) (rootComponentType teamRouter) (urlOf ''team'')
     = Resolved (routeTree teamRouter) \<and>
   navigateByUrl (exampleEnv noGuards) teamRouter ''team''
     = (Resolved (), teamRouter\<lparr>effects := [LocationGo ''team'', ChangesEmit]\<rparr>)"
  by (simp add: scenario_defs noGuards_def urlTree_def routeTree_def)

text \<open>
  C3, amended: navigating to an address recognised as the accepted tree (whose siblings bind
  distinct outlets, segments being equal to themselves) mounts and unmounts nothing, calls no
  guard and keeps the accepted tree and the registries; either a walk throws (an outlet of
  the tree is missing) and the navigation is rejected with no effect at all, or the
  navigation resolves and its only effects are the push of the location and one change
  notification.
\<close>

theorem renavigation_mounts_nothing:
  assumes refl: "\<forall>seg. equalSegments env seg (Some seg)"
    and d: "distinctOutlets (rootNode (priv_prevTree r))"
    and rec: "recognize env (rootComponentType r) url = Resolved (priv_prevTree r)"
  shows "routerOutletMap (snd (Router_navigate env r url)) = routerOutletMap r \<and>
         routeTree (snd (Router_navigate env r url)) = routeTree r \<and>
         ((\<exists>e. fst (Router_navigate env r url) = Rejected e) \<and>
            effects (snd (Router_navigate env r url)) = effects r \<or>
          fst (Router_navigate env r url) = Resolved () \<and>
            effects (snd (Router_navigate env r url))
              = effects r @ [LocationGo (serialize env url), ChangesEmit])"
proof -
  let ?t = "priv_prevTree r"
  let ?n = "rootNode ?t"
  let ?om = "Some (routerOutletMap r)"
  let ?s0 = "new_LoadSegments ?t (Some ?t)"
  let ?dry = "?s0\<lparr>performMutation := False\<rparr>"
  have t: "rootNode (currTree ?s0) = ?n" "map_option rootNode (prevTree ?s0) = Some ?n"
    by (simp_all add: new_LoadSegments_def)
  have f: "deactivations ?dry = []" "trace ?dry = []" "trace ?s0 = []"
    "?dry\<lparr>trace := []\<rparr>\<lparr>performMutation := True\<rparr> = ?s0"
    by (simp_all add: new_LoadSegments_def)
  obtain e1 where
    w1: "loadChildSegments env ?n (Some ?n) ?om [rootComponent r] ?dry = (e1, ?om, ?dry)"
    using same_walk[OF refl d] by blast
  obtain e2 where
    w2: "loadChildSegments env ?n (Some ?n) ?om [rootComponent r] ?s0 = (e2, ?om, ?s0)"
    using same_walk[OF refl d] by blast
  have c: "canDeactivate env ?s0 ?n (Some ?n) ?om (rootComponent r)
             = (case e1 of Some x \<Rightarrow> (Rejected x, ?om, ?dry)
                | None \<Rightarrow> (Resolved True, ?om, ?dry\<lparr>trace := []\<rparr>))"
    unfolding canDeactivate_def w1
    by (cases e1) (simp_all add: f guardEvents_def)
  have l: "load env ?s0 ?om (rootComponent r)
             = (case e1 of Some x \<Rightarrow> (Rejected x, ?om, ?dry)
                | None \<Rightarrow> (case e2 of Some x \<Rightarrow> (Rejected x, ?om, ?s0)
                           | None \<Rightarrow> (Resolved True, ?om, ?s0)))"
    unfolding load_def Let_def t c
    by (cases e1; cases e2) (simp_all add: f w2)
  show ?thesis
    unfolding Router_navigate_def Let_def
    by (cases e1; cases e2) (simp_all add: rec l f routeTree_def)
qed

theorem renavigation_mounts_nothing_witness:
  "(\<forall>seg. equalSegments (exampleEnv noGuards) seg (Some seg)) \<and>
   distinctOutlets (rootNode (priv_prevTree teamRouter)) \<and>
   recognize (exampleEnv noGuards) (rootComponentType teamRouter) (urlOf ''team'')
     = Resolved (priv_prevTree teamRouter) \<and>
   routerOutletMap (snd (Router_navigate (exampleEnv noGuards) teamRouter (urlOf ''team'')))
     = routerOutletMap teamRouter \<and>
   routeTree (snd (Router_navigate (exampleEnv noGuards) teamRouter (urlOf ''team'')))
     = routeTree teamRouter \<and>
   fst (Router_navigate (exampleEnv noGuards) teamRouter (urlOf ''team'')) = Resolved () \<and>
   effects (snd (Router_navigate (exampleEnv noGuards) teamRouter (urlOf ''team'')))
     = effects teamRouter @ [LocationGo ''team'', ChangesEmit]"
proof -
  have refl: "\<forall>seg. equalSegments (exampleEnv noGuards) seg (Some seg)"
    by (simp add: exampleEnv_def)
  have d: "distinctOutlets (rootNode (priv_prevTree teamRouter))"
    by (simp add: teamRouter_def teamTree_def)
  have rec: "recognize (exampleEnv noGuards) (rootComponentType teamRouter) (urlOf ''team'')
     = Resolved (priv_prevTree teamRouter)"
    by (simp add: exampleEnv_def teamRouter_def)
  have ok: "fst (Router_navigate (exampleEnv noGuards) teamRouter (urlOf ''team'')) = Resolved ()"
    by (simp add: scenario_defs noGuards_def)
  have ser: "serialize (exampleEnv noGuards) (urlOf ''team'') = ''team''"
    by (simp add: exampleEnv_def urlOf_def)
  from renavigation_mounts_nothing[OF refl d rec] ok ser
  have "routerOutletMap (snd (Router_navigate (exampleEnv noGuards) teamRouter (urlOf ''team'')))
          = routerOutletMap teamRouter"
    "routeTree (snd (Router_navigate (exampleEnv noGuards) teamRouter (urlOf ''team'')))
          = routeTree teamRouter"
    "effects (snd (Router_navigate (exampleEnv noGuards) teamRouter (urlOf ''team'')))
          = effects teamRouter @ [LocationGo ''team'', ChangesEmit]"
    by auto
  with refl d rec ok show ?thesis by (intro conjI)
qed

end
